theory Spec2Isabelle
  imports Complex_Main "HOL-Library.Log_Nat"
begin

section \<open>Exceptions\<close>

text \<open>
  The module \<^verbatim>\<open>wpodnet/backend.py\<close> defines no exception class of its own and never
  raises explicitly.  Every failure is a built-in exception raised by a primitive
  operation of Python, NumPy or Pillow; the model lists the ones that the modelled
  primitives can raise.
\<close>

datatype error = ZeroDivisionError | OverflowError | ValueError | IndexError | MemoryError

definition bindE :: "error + 'a \<Rightarrow> ('a \<Rightarrow> error + 'b) \<Rightarrow> error + 'b" where
  "bindE m f = (case m of Inl e \<Rightarrow> Inl e | Inr v \<Rightarrow> f v)"

section \<open>Python floats (IEEE 754 binary64)\<close>

text \<open>
  \<^verbatim>\<open>_resize_to_fixed_ratio\<close> goes from integers through Python floats back to integers,
  and the integer results depend on the rounding of every intermediate value (for a
  \<open>11 \<times> 17\<close> image the truncated height is \<open>457\<close>, where exact arithmetic gives \<open>458\<close>).
  A finite float is modelled by the rational number it denotes, and each operation rounds
  its exact result to the nearest binary64 value, ties to even.
\<close>

definition round_half_even :: "rat \<Rightarrow> int" where
  "round_half_even x =
     (let n = \<lfloor>x\<rfloor>; d = x - of_int n
      in if d < 1 / 2 then n else if 1 / 2 < d then n + 1 else if even n then n else n + 1)"

text \<open>\<open>ilog2 x\<close> is the binary exponent \<open>\<lfloor>log\<^sub>2 x\<rfloor>\<close> of a positive rational.\<close>

definition ilog2 :: "rat \<Rightarrow> int" where
  "ilog2 x =
     (let (p, q) = quotient_of x; e = bitlen p - bitlen q
      in if 2 powi e \<le> x then e else e - 1)"

text \<open>
  Rounding to 53 significant bits; below \<open>2\<^sup>-\<^sup>1\<^sup>0\<^sup>2\<^sup>2\<close> the spacing stays that of the
  subnormal numbers.  The result is not yet checked against the largest finite float.
\<close>

definition float_round :: "rat \<Rightarrow> rat" where
  "float_round x =
     (if x = 0 then 0
      else let e = max (ilog2 \<bar>x\<bar>) (- 1022); u = 2 powi (e - 52)
           in of_int (round_half_even (x / u)) * u)"

definition float_overflows :: "rat \<Rightarrow> bool" where
  "float_overflows r \<longleftrightarrow> 2 ^ 1024 \<le> \<bar>r\<bar>"

text \<open>A float is finite or an infinity; no operation modelled here produces a NaN.\<close>

datatype pyfloat = Finite rat | Infinite

text \<open>\<^verbatim>\<open>a / b\<close> on two \<^verbatim>\<open>int\<close>s: the correctly rounded quotient.\<close>

definition int_true_divide :: "int \<Rightarrow> int \<Rightarrow> error + rat" where
  "int_true_divide a b =
     (if b = 0 then Inl ZeroDivisionError
      else let r = float_round (of_int a / of_int b)
           in if float_overflows r then Inl OverflowError else Inr r)"

text \<open>The conversion of an \<^verbatim>\<open>int\<close> operand of a mixed \<^verbatim>\<open>int * float\<close> product.\<close>

definition int_to_float :: "int \<Rightarrow> error + rat" where
  "int_to_float n =
     (let r = float_round (of_int n)
      in if float_overflows r then Inl OverflowError else Inr r)"

text \<open>\<^verbatim>\<open>x * y\<close> on two floats: an overflow gives an infinity, without an exception.\<close>

definition float_mul :: "rat \<Rightarrow> rat \<Rightarrow> pyfloat" where
  "float_mul x y =
     (let r = float_round (x * y) in if float_overflows r then Infinite else Finite r)"

text \<open>\<^verbatim>\<open>int(x)\<close> on a float truncates toward zero and rejects an infinity.\<close>

definition float_to_int :: "pyfloat \<Rightarrow> error + int" where
  "float_to_int x =
     (case x of
        Infinite \<Rightarrow> Inl OverflowError
      | Finite r \<Rightarrow> Inr (if 0 \<le> r then \<lfloor>r\<rfloor> else \<lceil>r\<rceil>))"

section \<open>The fixed-ratio resizer\<close>

text \<open>
  \<^verbatim>\<open>
  def _resize_to_fixed_ratio(self, image):
      h, w = image.height, image.width
      wh_ratio = max(h, w) / min(h, w)
      side = int(wh_ratio * 288)
      bound_dim = min(side + side % 16, 608)
      factor = bound_dim / min(h, w)
      reg_w, reg_h = int(w * factor), int(h * factor)
      return image.resize((reg_w, reg_h))
  \<close>
  The model works on the height and width of the image.  The arithmetic that leads to
  the target size is kept in functions of their own, so that \<open>side\<close>, \<open>bound_dim\<close> and
  \<open>(reg_w, reg_h)\<close> can be named; \<open>resize_to_fixed_ratio\<close> is the whole function,
  including the call of \<^verbatim>\<open>image.resize\<close>.
\<close>

definition resize_side :: "int \<Rightarrow> int \<Rightarrow> error + int" where
  "resize_side h w =
     bindE (int_true_divide (max h w) (min h w)) (\<lambda>wh_ratio.
     bindE (int_to_float 288) (\<lambda>c.
     float_to_int (float_mul wh_ratio c)))"

definition resize_bound_dim :: "int \<Rightarrow> int \<Rightarrow> error + int" where
  "resize_bound_dim h w =
     bindE (resize_side h w) (\<lambda>side. Inr (min (side + side mod 16) 608))"

definition resize_target :: "int \<Rightarrow> int \<Rightarrow> error + (int \<times> int)" where
  "resize_target h w =
     bindE (resize_bound_dim h w) (\<lambda>bound_dim.
     bindE (int_true_divide bound_dim (min h w)) (\<lambda>factor.
     bindE (int_to_float w) (\<lambda>wf.
     bindE (float_to_int (float_mul wf factor)) (\<lambda>reg_w.
     bindE (int_to_float h) (\<lambda>hf.
     bindE (float_to_int (float_mul hf factor)) (\<lambda>reg_h.
     Inr (reg_w, reg_h)))))))"

text \<open>
  \<^verbatim>\<open>image.resize((reg_w, reg_h))\<close> is Pillow's.  Its C implementation receives the two sizes
  as C \<^verbatim>\<open>int\<close>s, so the conversion of a Python integer outside \<open>[-2\<^sup>3\<^sup>1, 2\<^sup>3\<^sup>1)\<close> raises
  \<^verbatim>\<open>OverflowError\<close>; it rejects a size below 1 with \<^verbatim>\<open>ValueError\<close>; and it allocates the
  new image, which fails with \<^verbatim>\<open>MemoryError\<close> when the storage cannot be obtained.
  Whether an image of a given size can be allocated is decided by Pillow and the machine,
  not by this module: it is the parameter \<open>alloc\<close> of the model.  The resampled pixels are
  not modelled; the result is represented by its size \<open>(width, height)\<close>.
\<close>

definition c_int :: "int \<Rightarrow> bool" where
  "c_int n \<longleftrightarrow> - (2 ^ 31) \<le> n \<and> n < 2 ^ 31"

definition image_resize :: "(int \<times> int \<Rightarrow> bool) \<Rightarrow> int \<times> int \<Rightarrow> error + (int \<times> int)" where
  "image_resize alloc target =
     (case target of (xsize, ysize) \<Rightarrow>
        if \<not> (c_int xsize \<and> c_int ysize) then Inl OverflowError
        else if xsize < 1 \<or> ysize < 1 then Inl ValueError
        else if \<not> alloc (xsize, ysize) then Inl MemoryError
        else Inr (xsize, ysize))"

definition resize_to_fixed_ratio ::
  "(int \<times> int \<Rightarrow> bool) \<Rightarrow> int \<Rightarrow> int \<Rightarrow> error + (int \<times> int)" where
  "resize_to_fixed_ratio alloc h w =
     bindE (resize_target h w) (\<lambda>(reg_w, reg_h). image_resize alloc (reg_w, reg_h))"

section \<open>NumPy arrays\<close>

text \<open>
  The decoder works on two C-contiguous arrays (see the comments in \<^verbatim>\<open>_inference\<close>):
  \<^verbatim>\<open>probs\<close> of shape \<open>(grid_h, grid_w)\<close> and \<^verbatim>\<open>affines\<close> of shape \<open>(6, grid_h, grid_w)\<close>.
  An array is its shape together with its buffer in row-major order, which is what the
  in-place writes of \<^verbatim>\<open>_get_bounds\<close> act on.  The entries are single precision floats.
  The probabilities are only compared with each other, and are kept as real numbers.
  The affine parameters enter binary64 arithmetic: like the Python floats above, each is
  modelled by the rational number it denotes, and is finite.  NaN and infinite entries
  are outside this model.
\<close>

record prob_grid =
  p_grid_h :: nat
  p_grid_w :: nat
  p_data :: "real list"

record affine_grid =
  a_channels :: nat
  a_grid_h :: nat
  a_grid_w :: nat
  a_data :: "rat list"

definition wf_probs :: "prob_grid \<Rightarrow> bool" where
  "wf_probs probs \<longleftrightarrow> length (p_data probs) = p_grid_h probs * p_grid_w probs"

definition wf_affines :: "affine_grid \<Rightarrow> bool" where
  "wf_affines affines \<longleftrightarrow>
     length (a_data affines) = a_channels affines * a_grid_h affines * a_grid_w affines"

text \<open>The buffer positions of \<^verbatim>\<open>probs[y, x]\<close> and \<^verbatim>\<open>affines[k, y, x]\<close>.\<close>

definition prob_at :: "prob_grid \<Rightarrow> nat \<Rightarrow> nat \<Rightarrow> real" where
  "prob_at probs y x = p_data probs ! (y * p_grid_w probs + x)"

definition flat3 :: "affine_grid \<Rightarrow> nat \<Rightarrow> nat \<Rightarrow> nat \<Rightarrow> nat" where
  "flat3 affines k y x = (k * a_grid_h affines + y) * a_grid_w affines + x"

definition affine_at :: "affine_grid \<Rightarrow> nat \<Rightarrow> nat \<Rightarrow> nat \<Rightarrow> rat" where
  "affine_at affines k y x = a_data affines ! flat3 affines k y x"

text \<open>
  An integer index along an axis of length \<open>n\<close>: a negative index counts from the end,
  anything outside \<open>[-n, n)\<close> raises \<^verbatim>\<open>IndexError\<close>.
\<close>

definition index_axis :: "int \<Rightarrow> nat \<Rightarrow> error + nat" where
  "index_axis i n =
     (let j = (if i < 0 then i + int n else i)
      in if 0 \<le> j \<and> j < int n then Inr (nat j) else Inl IndexError)"

text \<open>
  Arithmetic on binary64 arrays rounds the exact result of each operation to the nearest
  binary64 value.  The operands of the decoder come from single precision entries, the
  template, the constant \<open>7.75\<close>, array indices and image sizes, so that no result
  reaches the overflow threshold \<open>2\<^sup>1\<^sup>0\<^sup>2\<^sup>4\<close>; the operations are modelled without
  an infinity.  \<open>f64_div\<close> is only applied to a divisor that is not zero.
\<close>

definition f64_add :: "rat \<Rightarrow> rat \<Rightarrow> rat" where
  "f64_add x y = float_round (x + y)"

definition f64_mul :: "rat \<Rightarrow> rat \<Rightarrow> rat" where
  "f64_mul x y = float_round (x * y)"

definition f64_div :: "rat \<Rightarrow> rat \<Rightarrow> rat" where
  "f64_div x y = float_round (x / y)"

section \<open>The anchor selector\<close>

text \<open>
  \<^verbatim>\<open>
  def _get_max_anchor(self, probs):
      return np.unravel_index(probs.argmax(), probs.shape)
  \<close>
  \<^verbatim>\<open>argmax\<close> scans the flattened array and replaces the running maximum only by a strictly
  larger entry; it rejects an empty array.  \<^verbatim>\<open>unravel_index\<close> turns the flat position into
  \<open>(row, column)\<close>.  \<^verbatim>\<open>np.amax\<close> is the maximum of the entries.
\<close>

fun argmax_from :: "real list \<Rightarrow> nat \<Rightarrow> real \<Rightarrow> nat \<Rightarrow> nat" where
  "argmax_from [] i mp mi = mi"
| "argmax_from (x # xs) i mp mi =
     (if mp < x then argmax_from xs (Suc i) x i else argmax_from xs (Suc i) mp mi)"

definition argmax :: "real list \<Rightarrow> error + nat" where
  "argmax xs = (case xs of [] \<Rightarrow> Inl ValueError | x # rest \<Rightarrow> Inr (argmax_from rest 1 x 0))"

definition unravel_index :: "nat \<Rightarrow> nat \<times> nat \<Rightarrow> error + (nat \<times> nat)" where
  "unravel_index i shape =
     (case shape of (h, w) \<Rightarrow> if i < h * w then Inr (i div w, i mod w) else Inl ValueError)"

definition get_max_anchor :: "prob_grid \<Rightarrow> error + (nat \<times> nat)" where
  "get_max_anchor probs =
     bindE (argmax (p_data probs)) (\<lambda>i. unravel_index i (p_grid_h probs, p_grid_w probs))"

definition amax :: "real list \<Rightarrow> error + real" where
  "amax xs = (case xs of [] \<Rightarrow> Inl ValueError | x # rest \<Rightarrow> Inr (fold max rest x))"

section \<open>The affine decoder\<close>

text \<open>
  \<^verbatim>\<open>
  _q = np.array([[-.5, .5, .5, -.5], [-.5, -.5, .5, .5], [1., 1., 1., 1.]])
  _scaling_const = 7.75

  def _get_bounds(self, affines, anchor_y, anchor_x):
      theta = affines[:, anchor_y, anchor_x]
      theta = theta.reshape((2, 3))
      theta[0, 0] = max(theta[0, 0], 0.0)
      theta[1, 1] = max(theta[1, 1], 0.0)
      bounds = np.matmul(theta, self._q) * self._scaling_const
      _, grid_h, grid_w = affines.shape
      bounds[0] = (bounds[0] + anchor_x + .5) / grid_w
      bounds[1] = (bounds[1] + anchor_y + .5) / grid_h
      return np.transpose(bounds)
  \<close>
  Basic indexing gives a strided view of the buffer of \<^verbatim>\<open>affines\<close>, and reshaping a
  one-dimensional view of constant stride needs no copy: \<^verbatim>\<open>theta\<close> aliases six entries of
  the grid.  The view is modelled by the list of the six buffer positions, the two
  assignments write to the buffer, and the function returns the quadrilateral together
  with the grid as the call leaves it.  The maximum of an entry and \<open>0.0\<close> is one of the
  two and is stored without rounding.

  \<^verbatim>\<open>_q\<close> is a binary64 array, so \<^verbatim>\<open>np.matmul\<close> converts \<^verbatim>\<open>theta\<close> to binary64, which is
  exact, and everything after it is binary64 arithmetic.  An entry of the product is the
  sum of three products, accumulated from left to right.  The anchor and the grid sizes
  are array indices, which convert to binary64 exactly.
\<close>

definition q :: "rat list list" where
  "q = [[- 0.5, 0.5, 0.5, - 0.5],
        [- 0.5, - 0.5, 0.5, 0.5],
        [1, 1, 1, 1]]"

definition scaling_const :: rat where
  "scaling_const = 7.75"

fun dot_from :: "rat \<Rightarrow> rat list \<Rightarrow> rat list \<Rightarrow> rat" where
  "dot_from acc (x # xs) (y # ys) = dot_from (f64_add acc (f64_mul x y)) xs ys"
| "dot_from acc xs ys = acc"

fun dot :: "rat list \<Rightarrow> rat list \<Rightarrow> rat" where
  "dot (x # xs) (y # ys) = dot_from (f64_mul x y) xs ys"
| "dot xs ys = 0"

definition matmul :: "rat list list \<Rightarrow> rat list list \<Rightarrow> rat list list" where
  "matmul a b = map (\<lambda>row. map (\<lambda>col. dot row col) (transpose b)) a"

definition get_bounds ::
  "affine_grid \<Rightarrow> int \<Rightarrow> int \<Rightarrow> error + ((rat \<times> rat) list \<times> affine_grid)" where
  "get_bounds affines anchor_y anchor_x =
     bindE (index_axis anchor_y (a_grid_h affines)) (\<lambda>y.
     bindE (index_axis anchor_x (a_grid_w affines)) (\<lambda>x.
       if a_channels affines \<noteq> 6 then Inl ValueError
       else
         let view = map (\<lambda>k. flat3 affines k y x) [0 ..< 6];
             d0 = a_data affines;
             d1 = d0[view ! 0 := max (d0 ! (view ! 0)) 0];
             d2 = d1[view ! 4 := max (d1 ! (view ! 4)) 0];
             theta = [[d2 ! (view ! 0), d2 ! (view ! 1), d2 ! (view ! 2)],
                      [d2 ! (view ! 3), d2 ! (view ! 4), d2 ! (view ! 5)]];
             bounds = map (map (\<lambda>v. f64_mul v scaling_const)) (matmul theta q);
             grid_h = a_grid_h affines;
             grid_w = a_grid_w affines;
             bounds0 = map (\<lambda>v. f64_div (f64_add (f64_add v (of_int anchor_x)) 0.5)
                                    (of_nat grid_w)) (bounds ! 0);
             bounds1 = map (\<lambda>v. f64_div (f64_add (f64_add v (of_int anchor_y)) 0.5)
                                    (of_nat grid_h)) (bounds ! 1)
         in Inr (zip bounds0 bounds1, affines\<lparr>a_data := d2\<rparr>)))"



text \<open>
  The same formula with every operation rounded to binary64, the operations taken in the
  order in which the formula is written; the third term of the inner sum is the product
  of the parameter with the entry \<open>1\<close> of the template.
\<close>

definition binary64_corner :: "affine_grid \<Rightarrow> nat \<Rightarrow> nat \<Rightarrow> rat \<Rightarrow> rat \<Rightarrow> rat \<times> rat" where
  "binary64_corner affines anchor_y anchor_x Qx Qy =
     (let theta00 = affine_at affines 0 anchor_y anchor_x;
          theta01 = affine_at affines 1 anchor_y anchor_x;
          theta02 = affine_at affines 2 anchor_y anchor_x;
          theta10 = affine_at affines 3 anchor_y anchor_x;
          theta11 = affine_at affines 4 anchor_y anchor_x;
          theta12 = affine_at affines 5 anchor_y anchor_x;
          sx = f64_add (f64_add (f64_mul (max theta00 0) Qx) (f64_mul theta01 Qy))
                 (f64_mul theta02 1);
          sy = f64_add (f64_add (f64_mul theta10 Qx) (f64_mul (max theta11 0) Qy))
                 (f64_mul theta12 1)
      in (f64_div (f64_add (f64_add (f64_mul sx 7.75) (of_nat anchor_x)) 0.5)
            (of_nat (a_grid_w affines)),
          f64_div (f64_add (f64_add (f64_mul sy 7.75) (of_nat anchor_y)) 0.5)
            (of_nat (a_grid_h affines))))"

definition binary64_quad :: "affine_grid \<Rightarrow> nat \<Rightarrow> nat \<Rightarrow> (rat \<times> rat) list" where
  "binary64_quad affines anchor_y anchor_x =
     [binary64_corner affines anchor_y anchor_x (- 0.5) (- 0.5),
      binary64_corner affines anchor_y anchor_x 0.5 (- 0.5),
      binary64_corner affines anchor_y anchor_x 0.5 0.5,
      binary64_corner affines anchor_y anchor_x (- 0.5) 0.5]"

text \<open>The grid with \<^verbatim>\<open>affines[k, y, x]\<close> set to \<open>v\<close>, used to state properties of inputs.\<close>

definition set_affine :: "affine_grid \<Rightarrow> nat \<Rightarrow> nat \<Rightarrow> nat \<Rightarrow> rat \<Rightarrow> affine_grid" where
  "set_affine affines k y x v =
     affines\<lparr>a_data := (a_data affines)[flat3 affines k y x := v]\<rparr>"

section \<open>The inference adapter\<close>

text \<open>
  \<^verbatim>\<open>
  def _inference(self, image):
      with torch.no_grad():
          probs, affines = self.wpodnet.forward(image)
      probs = np.squeeze(probs.cpu().numpy())[0]     # (grid_h, grid_w)
      affines = np.squeeze(affines.cpu().numpy())  # (6, grid_h, grid_w)
      return probs, affines
  \<close>
  The network is an external collaborator, and its two outputs are parameters of the
  model.  \<^verbatim>\<open>_to_torch_image\<close> gives the image a batch axis of length 1, and the network
  maps this batch to two channel-first tensors of shape \<open>(1, channels, h, w)\<close>; a tensor
  is represented by its three other sizes and its buffer in row-major order.
  \<^verbatim>\<open>np.squeeze\<close> removes every axis of length 1, not only the batch axis, and \<^verbatim>\<open>[0]\<close>
  takes the first entry along the first axis that is left; it raises \<^verbatim>\<open>IndexError\<close>
  when no axis is left or when the first axis is empty.  The arrays that leave
  \<^verbatim>\<open>_inference\<close> therefore have the ranks 2 and 3 of the comments only if no axis of the
  tensors other than the batch axis has length 1.
\<close>

record 'a tensor =
  t_channels :: nat
  t_h :: nat
  t_w :: nat
  t_data :: "'a list"

record 'a ndarray =
  nd_shape :: "nat list"
  nd_data :: "'a list"

definition squeeze :: "'a tensor \<Rightarrow> 'a ndarray" where
  "squeeze t =
     \<lparr>nd_shape = filter (\<lambda>n. n \<noteq> 1) [1, t_channels t, t_h t, t_w t], nd_data = t_data t\<rparr>"

definition first_entry :: "'a ndarray \<Rightarrow> error + 'a ndarray" where
  "first_entry a =
     (case nd_shape a of
        [] \<Rightarrow> Inl IndexError
      | n # rest \<Rightarrow>
          if n = 0 then Inl IndexError
          else Inr \<lparr>nd_shape = rest, nd_data = take (prod_list rest) (nd_data a)\<rparr>)"

definition inference :: "real tensor \<Rightarrow> rat tensor \<Rightarrow> error + (real ndarray \<times> rat ndarray)" where
  "inference net_probs net_affines =
     bindE (first_entry (squeeze net_probs)) (\<lambda>probs.
     Inr (probs, squeeze net_affines))"

section \<open>The predictor\<close>

text \<open>
  \<^verbatim>\<open>
  def predict(self, image):
      orig_h, orig_w = image.height, image.width
      resized = self._resize_to_fixed_ratio(image)
      ...
      probs, affines = self._inference(resized)
      max_prob = np.amax(probs)
      anchor_y, anchor_x = self._get_max_anchor(probs)
      bounds = self._get_bounds(affines, anchor_y, anchor_x)
      bounds[:, 0] *= orig_w
      bounds[:, 1] *= orig_h
      return Prediction(image=image, bounds=bounds.astype(np.int32), confidence=max_prob)
  \<close>
  An image is represented by its size, and the field \<^verbatim>\<open>image\<close> of \<^verbatim>\<open>Prediction\<close> is called
  \<open>image_ref\<close>, since \<open>image\<close> is a constant of HOL.

  The assignment \<^verbatim>\<open>anchor_y, anchor_x = ...\<close> unpacks the tuple that \<^verbatim>\<open>unravel_index\<close>
  returns, which has one component for each axis of \<^verbatim>\<open>probs\<close>: it raises \<^verbatim>\<open>ValueError\<close>
  unless \<^verbatim>\<open>probs\<close> has rank 2.  The indexing \<^verbatim>\<open>affines[:, anchor_y, anchor_x]\<close> raises
  \<^verbatim>\<open>IndexError\<close> when \<^verbatim>\<open>affines\<close> has fewer than three axes; after \<^verbatim>\<open>np.squeeze\<close> of a
  tensor with a batch axis of length 1 it never has more.

  The two products with the image size are binary64 products; the sizes of a Pillow
  image are below \<open>2\<^sup>3\<^sup>1\<close> and convert to binary64 exactly.  \<^verbatim>\<open>astype(np.int32)\<close>
  truncates toward zero; for a value outside the 32-bit range the conversion
  instruction of x86-64 yields \<open>-2\<^sup>3\<^sup>1\<close>.
\<close>

record image =
  height :: int
  width :: int

record prediction =
  image_ref :: image
  bounds :: "(int \<times> int) list"
  confidence :: real

definition astype_int32 :: "rat \<Rightarrow> int" where
  "astype_int32 r =
     (let t = (if 0 \<le> r then \<lfloor>r\<rfloor> else \<lceil>r\<rceil>)
      in if - (2 ^ 31) \<le> t \<and> t < 2 ^ 31 then t else - (2 ^ 31))"

definition unpack_anchor :: "real ndarray \<Rightarrow> error + (nat \<times> nat)" where
  "unpack_anchor probs =
     (case nd_shape probs of
        [grid_h, grid_w] \<Rightarrow>
          get_max_anchor \<lparr>p_grid_h = grid_h, p_grid_w = grid_w, p_data = nd_data probs\<rparr>
      | _ \<Rightarrow> Inl ValueError)"

definition bounds_at ::
  "rat ndarray \<Rightarrow> nat \<Rightarrow> nat \<Rightarrow> error + ((rat \<times> rat) list \<times> affine_grid)" where
  "bounds_at affines anchor_y anchor_x =
     (case nd_shape affines of
        [channels, grid_h, grid_w] \<Rightarrow>
          get_bounds \<lparr>a_channels = channels, a_grid_h = grid_h, a_grid_w = grid_w,
                      a_data = nd_data affines\<rparr> (int anchor_y) (int anchor_x)
      | _ \<Rightarrow> Inl IndexError)"

definition predict ::
  "(int \<times> int \<Rightarrow> bool) \<Rightarrow> image \<Rightarrow> real tensor \<Rightarrow> rat tensor \<Rightarrow> error + prediction" where
  "predict alloc img net_probs net_affines =
     (let orig_h = height img; orig_w = width img
      in bindE (resize_to_fixed_ratio alloc orig_h orig_w) (\<lambda>resized.
         bindE (inference net_probs net_affines) (\<lambda>(probs, affines).
         bindE (amax (nd_data probs)) (\<lambda>max_prob.
         bindE (unpack_anchor probs) (\<lambda>(anchor_y, anchor_x).
         bindE (bounds_at affines anchor_y anchor_x) (\<lambda>(quad, affines').
         Inr \<lparr>image_ref = img,
              bounds = map (\<lambda>(x, y). (astype_int32 (f64_mul x (of_int orig_w)),
                                        astype_int32 (f64_mul y (of_int orig_h)))) quad,
              confidence = max_prob\<rparr>))))))"

section \<open>Properties of the rounding\<close>

lemma powi_of_bitlen:
  assumes "0 < p"
  shows "(2::rat) powi (bitlen p - 1) \<le> of_int p" "(of_int p :: rat) < 2 powi (bitlen p)"
proof -
  from bitlen_bounds[OF assms] have a: "2 ^ nat (bitlen p - 1) \<le> p" and b: "p < 2 ^ nat (bitlen p)" by auto
  have ge: "1 \<le> bitlen p" using assms by (auto simp: bitlen_alt_def)
  have "(of_int (2 ^ nat (bitlen p - 1)) :: rat) \<le> of_int p" using a by (simp only: of_int_le_iff)
  then show "(2::rat) powi (bitlen p - 1) \<le> of_int p" using ge by (simp add: power_int_def)
  have "(of_int p :: rat) < of_int (2 ^ nat (bitlen p))" using b by (simp only: of_int_less_iff)
  then show "(of_int p :: rat) < 2 powi (bitlen p)" using ge by (simp add: power_int_def)
qed

lemma ilog2_bounds:
  assumes "0 < x"
  shows "2 powi (ilog2 x) \<le> x \<and> x < 2 powi (ilog2 x + 1)"
proof -
  obtain p q where pq: "quotient_of x = (p, q)" by (cases "quotient_of x")
  have q: "0 < q" using pq by (rule quotient_of_denom_pos)
  have x: "x = of_int p / of_int q" using pq by (rule quotient_of_div)
  have p: "0 < p" using assms q x by (simp add: zero_less_divide_iff)
  note P = powi_of_bitlen[OF p] and Q = powi_of_bitlen[OF q]
  have qr: "(0::rat) < of_int q" using q by simp
  have up: "x < 2 powi (bitlen p - bitlen q + 1)"
  proof -
    have "x * of_int q = of_int p" using x qr by simp
    also have "\<dots> < 2 powi (bitlen p)" by (rule P)
    also have "\<dots> = 2 powi (bitlen p - bitlen q + 1) * 2 powi (bitlen q - 1)"
      by (simp add: power_int_add[symmetric])
    also have "\<dots> \<le> 2 powi (bitlen p - bitlen q + 1) * of_int q"
      using Q(1) by (intro mult_left_mono) simp_all
    finally show ?thesis using qr by simp
  qed
  have lo: "2 powi (bitlen p - bitlen q - 1) \<le> x"
  proof -
    have "(2::rat) powi (bitlen p - bitlen q - 1) * of_int q \<le> 2 powi (bitlen p - bitlen q - 1) * 2 powi (bitlen q)"
      using Q(2) by (intro mult_left_mono) simp_all
    also have "\<dots> = 2 powi (bitlen p - 1)" by (simp add: power_int_add[symmetric])
    also have "\<dots> \<le> of_int p" by (rule P)
    also have "\<dots> = x * of_int q" using x qr by simp
    finally show ?thesis using qr by simp
  qed
  show ?thesis
  proof (cases "2 powi (bitlen p - bitlen q) \<le> x")
    case True
    then show ?thesis using up by (simp add: ilog2_def pq)
  next
    case False
    then show ?thesis using lo by (simp add: ilog2_def pq)
  qed
qed


lemma round_half_even_bounds: "\<lfloor>x\<rfloor> \<le> round_half_even x \<and> round_half_even x \<le> \<lceil>x\<rceil>"
proof -
  have "x = of_int \<lfloor>x\<rfloor> \<or> \<lceil>x\<rceil> = \<lfloor>x\<rfloor> + 1" by (metis ceiling_altdef)
  moreover have "x = of_int \<lfloor>x\<rfloor> \<Longrightarrow> round_half_even x = \<lfloor>x\<rfloor>"
    by (simp add: round_half_even_def Let_def)
  moreover have "\<lfloor>x\<rfloor> \<le> round_half_even x" "round_half_even x \<le> \<lfloor>x\<rfloor> + 1"
    by (simp_all add: round_half_even_def Let_def)
  ultimately show ?thesis by (metis ceiling_of_int order_refl)
qed

lemma round_half_even_of_int: "round_half_even (of_int n) = n"
  by (simp add: round_half_even_def)

lemma round_half_even_mono:
  assumes "x \<le> y"
  shows "round_half_even x \<le> round_half_even y"
proof (cases "\<lfloor>x\<rfloor> = \<lfloor>y\<rfloor>")
  case True
  then show ?thesis using assms by (auto simp: round_half_even_def Let_def)
next
  case False
  then have lt: "\<lfloor>x\<rfloor> < \<lfloor>y\<rfloor>" using floor_mono[OF assms] by simp
  have "round_half_even x \<le> \<lfloor>x\<rfloor> + 1" by (simp add: round_half_even_def Let_def)
  also have "\<dots> \<le> \<lfloor>y\<rfloor>" using lt by simp
  also have "\<dots> \<le> round_half_even y" using round_half_even_bounds by blast
  finally show ?thesis .
qed

lemma round_half_even_ge: "of_int a \<le> x \<Longrightarrow> a \<le> round_half_even x"
  using round_half_even_mono[of "of_int a" x] by (simp add: round_half_even_of_int)

lemma round_half_even_le: "x \<le> of_int b \<Longrightarrow> round_half_even x \<le> b"
  using round_half_even_mono[of x "of_int b"] by (simp add: round_half_even_of_int)

lemma two_powi_less_iff: "(2::rat) powi m < 2 powi n \<longleftrightarrow> m < n"
proof
  assume a: "(2::rat) powi m < 2 powi n"
  show "m < n"
  proof (rule ccontr)
    assume "\<not> m < n"
    then have "(2::rat) powi n \<le> 2 powi m" by (intro power_int_increasing) simp_all
    with a show False by simp
  qed
next
  assume "m < n"
  then show "(2::rat) powi m < 2 powi n" by (intro power_int_strict_increasing) simp_all
qed

lemma two_powi_le_iff: "(2::rat) powi m \<le> 2 powi n \<longleftrightarrow> m \<le> n"
  using two_powi_less_iff[of n m] by (simp add: not_less[symmetric])


lemma ilog2_ge:
  assumes "2 powi k \<le> x"
  shows "k \<le> ilog2 x"
proof -
  have x: "0 < x" using assms by (rule less_le_trans[rotated]) simp
  have "(2::rat) powi k < 2 powi (ilog2 x + 1)" using assms ilog2_bounds[OF x] by linarith
  then have "k < ilog2 x + 1" by (simp add: two_powi_less_iff)
  then show ?thesis by simp
qed

lemma ilog2_less:
  assumes "0 < x" "x < 2 powi k"
  shows "ilog2 x < k"
proof -
  have "(2::rat) powi (ilog2 x) < 2 powi k" using assms ilog2_bounds[OF assms(1)] by linarith
  then show ?thesis by (simp add: two_powi_less_iff)
qed

lemma float_round_normal:
  assumes "2 powi (- 1022) \<le> x"
  shows "float_round x = of_int (round_half_even (x / 2 powi (ilog2 x - 52))) * 2 powi (ilog2 x - 52)"
proof -
  have x: "0 < x" using assms by (rule less_le_trans[rotated]) simp
  have "- 1022 \<le> ilog2 x" using assms by (rule ilog2_ge)
  then have "max (ilog2 x) (- 1022) = ilog2 x" by simp
  then show ?thesis using x by (simp add: float_round_def Let_def)
qed

lemma float_round_bounds:
  assumes "2 powi (- 1022) \<le> x"
  shows "2 powi (ilog2 x) \<le> float_round x" "float_round x \<le> 2 powi (ilog2 x + 1)"
proof -
  have x: "0 < x" using assms by (rule less_le_trans[rotated]) simp
  define u :: rat where "u = 2 powi (ilog2 x - 52)"
  have u: "0 < u" by (simp add: u_def)
  have fr: "float_round x = of_int (round_half_even (x / u)) * u"
    unfolding u_def using assms by (rule float_round_normal)
  have lo: "2 powi (ilog2 x) = of_int (2 ^ 52) * u"
    by (simp add: u_def power_int_diff)
  have hi: "2 powi (ilog2 x + 1) = of_int (2 ^ 53) * u"
    by (simp add: u_def power_int_diff power_int_add)
  have "of_int (2 ^ 52) \<le> x / u"
    using ilog2_bounds[OF x] u unfolding lo by (simp add: pos_le_divide_eq)
  then have "2 ^ 52 \<le> round_half_even (x / u)" by (rule round_half_even_ge)
  then have "(of_int (2 ^ 52) :: rat) \<le> of_int (round_half_even (x / u))"
    by (simp only: of_int_le_iff)
  then show "2 powi (ilog2 x) \<le> float_round x"
    unfolding lo fr using u by (intro mult_right_mono) simp_all
  have "x / u \<le> of_int (2 ^ 53)"
    using ilog2_bounds[OF x] u unfolding hi by (simp add: pos_divide_le_eq)
  then have "round_half_even (x / u) \<le> 2 ^ 53" by (rule round_half_even_le)
  then have "(of_int (round_half_even (x / u)) :: rat) \<le> of_int (2 ^ 53)"
    by (simp only: of_int_le_iff)
  then show "float_round x \<le> 2 powi (ilog2 x + 1)"
    unfolding hi fr using u by (intro mult_right_mono) simp_all
qed

lemma float_round_mono:
  assumes "2 powi (- 1022) \<le> x" "x \<le> y"
  shows "float_round x \<le> float_round y"
proof -
  have x: "0 < x" using assms(1) by (rule less_le_trans[rotated]) simp
  have y: "0 < y" "2 powi (- 1022) \<le> y" using x assms by simp_all
  have "(2::rat) powi (ilog2 x) \<le> y" using ilog2_bounds[OF x] assms(2) by simp
  then have le: "ilog2 x \<le> ilog2 y" by (rule ilog2_ge)
  show ?thesis
  proof (cases "ilog2 x = ilog2 y")
    case True
    let ?u = "(2::rat) powi (ilog2 y - 52)"
    have "x / ?u \<le> y / ?u" using assms(2) by (simp add: divide_right_mono)
    then have "round_half_even (x / ?u) \<le> round_half_even (y / ?u)" by (rule round_half_even_mono)
    then have "(of_int (round_half_even (x / ?u)) :: rat) \<le> of_int (round_half_even (y / ?u))"
      by (simp only: of_int_le_iff)
    then have "of_int (round_half_even (x / ?u)) * ?u \<le> of_int (round_half_even (y / ?u)) * ?u"
      by (intro mult_right_mono) simp_all
    then show ?thesis
      using float_round_normal[OF assms(1)] float_round_normal[OF y(2)] True by simp
  next
    case False
    then have "ilog2 x + 1 \<le> ilog2 y" using le by simp
    then have "(2::rat) powi (ilog2 x + 1) \<le> 2 powi (ilog2 y)" by (simp only: two_powi_le_iff)
    then show ?thesis
      using float_round_bounds(2)[OF assms(1)] float_round_bounds(1)[OF y(2)] by linarith
  qed
qed

lemma two_powi_neg_nat: "(2::rat) powi (- int n) = 1 / 2 ^ n"
  by (simp add: power_int_minus inverse_eq_divide)

lemma float_round_dyadic:
  assumes m: "0 < m" "m < 2 ^ 53" and n: "2 powi (- 1022) \<le> (of_int m / 2 ^ k :: rat)"
  shows "float_round (of_int m / 2 ^ k) = of_int m / 2 ^ k"
proof -
  define x :: rat where "x = of_int m / 2 ^ k"
  have x: "0 < x" using m by (simp add: x_def)
  have n': "2 powi (- 1022) \<le> x" using n by (simp only: x_def)
  have "(of_int m :: rat) < of_int (2 ^ 53)" using m(2) by (simp only: of_int_less_iff)
  then have "x < of_int (2 ^ 53) / 2 ^ k" unfolding x_def by (intro divide_strict_right_mono) simp_all
  also have "\<dots> = 2 powi (53 - int k)" by (simp add: power_int_diff)
  finally have "ilog2 x < 53 - int k" using x by (intro ilog2_less)
  then have nn: "0 \<le> 52 - ilog2 x - int k" by simp
  define j where "j = nat (52 - ilog2 x - int k)"
  have e: "ilog2 x - 52 = - int (k + j)" using nn by (simp add: j_def)
  have u: "(2::rat) powi (ilog2 x - 52) = 1 / 2 ^ (k + j)"
    unfolding e by (rule two_powi_neg_nat)
  have q: "x / (1 / 2 ^ (k + j)) = of_int (m * 2 ^ j)"
    by (simp add: x_def power_add)
  have "float_round x = of_int (m * 2 ^ j) * (1 / 2 ^ (k + j))"
    unfolding float_round_normal[OF n'] u q round_half_even_of_int ..
  also have "\<dots> = x" by (simp add: x_def power_add)
  finally show ?thesis by (simp only: x_def)
qed

lemma float_round_int:
  assumes "0 < n" "n < 2 ^ 53"
  shows "float_round (of_int n) = of_int n"
  using float_round_dyadic[of n 0] assms by simp

lemma float_round_between:
  assumes lo: "0 < lo" "lo < 2 ^ 53" and hi: "0 < hi" "hi < 2 ^ 53"
    and x: "of_int lo \<le> x" "x \<le> of_int hi"
  shows "of_int lo \<le> float_round x \<and> float_round x \<le> of_int hi"
proof -
  have one: "(2::rat) powi (- 1022) \<le> 1" by (simp add: power_int_minus inverse_le_1_iff)
  have "(1::rat) \<le> of_int lo" using lo(1) by simp
  then have nlo: "(2::rat) powi (- 1022) \<le> of_int lo" using one by linarith
  then have nx: "(2::rat) powi (- 1022) \<le> x" using x(1) by linarith
  have "float_round (of_int lo) \<le> float_round x" using nlo x(1) by (rule float_round_mono)
  moreover have "float_round x \<le> float_round (of_int hi)" using nx x(2) by (rule float_round_mono)
  ultimately show ?thesis
    using float_round_int[OF lo] float_round_int[OF hi] by simp
qed

lemma not_float_overflows:
  assumes "0 \<le> r" "r \<le> of_int hi" "hi < 2 ^ 53"
  shows "\<not> float_overflows r"
proof -
  have "(of_int hi :: rat) < of_int (2 ^ 53)" using assms(3) by (simp only: of_int_less_iff)
  also have "\<dots> < 2 ^ 1024" by simp
  finally show ?thesis using assms(1,2) by (simp add: float_overflows_def)
qed

lemma int_to_float_exact:
  assumes "0 < n" "n < 2 ^ 53"
  shows "int_to_float n = Inr (of_int n)"
  using float_round_int[OF assms] not_float_overflows[of "of_int n" n] assms
  by (simp add: int_to_float_def)

lemma float_mul_between:
  assumes lo: "0 < lo" "lo < 2 ^ 53" and hi: "0 < hi" "hi < 2 ^ 53"
    and x: "of_int lo \<le> x * y" "x * y \<le> of_int hi"
  shows "\<exists>r. float_mul x y = Finite r \<and> of_int lo \<le> r \<and> r \<le> of_int hi"
proof -
  note b = float_round_between[OF lo hi x]
  have "(0::rat) \<le> of_int lo" using lo(1) by simp
  then have "0 \<le> float_round (x * y)" using b by linarith
  then have "\<not> float_overflows (float_round (x * y))"
    using b hi(2) by (intro not_float_overflows[of _ hi]) simp_all
  then show ?thesis using b by (simp add: float_mul_def)
qed

lemma float_to_int_between:
  assumes "of_int lo \<le> r" "r \<le> of_int hi" "0 \<le> lo"
  shows "\<exists>n. float_to_int (Finite r) = Inr n \<and> lo \<le> n \<and> n \<le> hi"
proof -
  have "(0::rat) \<le> of_int lo" using assms(3) by simp
  then have "0 \<le> r" using assms(1) by linarith
  moreover have "lo \<le> \<lfloor>r\<rfloor>" using assms(1) by (simp add: le_floor_iff)
  moreover have "\<lfloor>r\<rfloor> \<le> hi" using assms(2) by (simp add: floor_le_iff)
  ultimately show ?thesis by (simp add: float_to_int_def)
qed

lemma int_true_divide_between:
  assumes lo: "0 < lo" "lo < 2 ^ 53" and hi: "0 < hi" "hi < 2 ^ 53"
    and b: "b \<noteq> 0" and x: "of_int lo \<le> (of_int a / of_int b :: rat)" "(of_int a / of_int b :: rat) \<le> of_int hi"
  shows "\<exists>r. int_true_divide a b = Inr r \<and> of_int lo \<le> r \<and> r \<le> of_int hi"
proof -
  note bb = float_round_between[OF lo hi x]
  have "(0::rat) \<le> of_int lo" using lo(1) by simp
  then have "0 \<le> float_round (of_int a / of_int b)" using bb by linarith
  then have "\<not> float_overflows (float_round (of_int a / of_int b))"
    using bb hi(2) by (intro not_float_overflows[of _ hi]) simp_all
  then show ?thesis using bb b by (simp add: int_true_divide_def)
qed

lemma float_round_half_double:
  assumes "2 powi (- 1022) \<le> x"
  shows "x < 2 * float_round x" "float_round x \<le> 2 * x"
proof -
  have x: "0 < x" using assms by (rule less_le_trans[rotated]) simp
  have s: "(2::rat) powi (ilog2 x + 1) = 2 * 2 powi (ilog2 x)"
    by (simp add: power_int_add)
  note b = float_round_bounds[OF assms] and i = ilog2_bounds[OF x]
  show "x < 2 * float_round x" using b(1) i s by linarith
  show "float_round x \<le> 2 * x" using b(2) i s by linarith
qed

lemma round_half_even_minus: "round_half_even (- x) = - round_half_even x"
proof (cases "x = of_int \<lfloor>x\<rfloor>")
  case True
  then obtain n where "x = of_int n" ..
  then show ?thesis
    using round_half_even_of_int[of n] round_half_even_of_int[of "- n"] by simp
next
  case False
  then have c: "\<lceil>x\<rceil> = \<lfloor>x\<rfloor> + 1" by (metis ceiling_altdef)
  have f: "\<lfloor>- x\<rfloor> = - \<lfloor>x\<rfloor> - 1" using c by (simp add: floor_minus)
  show ?thesis
    unfolding round_half_even_def Let_def f by (auto simp: algebra_simps)
qed

lemma float_round_minus: "float_round (- x) = - float_round x"
  by (simp add: float_round_def Let_def round_half_even_minus)

lemma round_half_even_nearest:
  assumes "\<bar>x - of_int n\<bar> < 1 / 2"
  shows "round_half_even x = n"
proof (cases "of_int n \<le> x")
  case True
  then have "\<lfloor>x\<rfloor> = n" using assms by (intro floor_unique) (auto simp: abs_if split: if_splits)
  then show ?thesis using assms True by (auto simp: round_half_even_def Let_def abs_if split: if_splits)
next
  case False
  then have "\<lfloor>x\<rfloor> = n - 1" using assms by (intro floor_unique) (auto simp: abs_if split: if_splits)
  then show ?thesis using assms False by (auto simp: round_half_even_def Let_def abs_if split: if_splits)
qed

lemma ilog2_eq:
  assumes "2 powi e \<le> x" "x < 2 powi (e + 1)"
  shows "ilog2 x = e"
proof -
  have x: "0 < x" using assms(1) by (rule less_le_trans[rotated]) simp
  have "e \<le> ilog2 x" using assms(1) by (rule ilog2_ge)
  moreover have "ilog2 x < e + 1" using x assms(2) by (rule ilog2_less)
  ultimately show ?thesis by simp
qed

lemma float_round_nearest:
  assumes "2 powi e \<le> x" "x < 2 powi (e + 1)" "- 1022 \<le> e"
    and "\<bar>x / 2 powi (e - 52) - of_int n\<bar> < 1 / 2"
  shows "float_round x = of_int n * 2 powi (e - 52)"
proof -
  have "(2::rat) powi (- 1022) \<le> 2 powi e" using assms(3) by (simp only: two_powi_le_iff)
  then have n: "2 powi (- 1022) \<le> x" using assms(1) by linarith
  show ?thesis
    unfolding float_round_normal[OF n] ilog2_eq[OF assms(1,2)]
      round_half_even_nearest[OF assms(4)] ..
qed


section \<open>Properties of the fixed-ratio resizer\<close>

lemma ratio_bounds:
  fixes h w :: int
  assumes "1 \<le> h" "h < 2 ^ 31" "1 \<le> w" "w < 2 ^ 31"
  shows "(of_int 1 :: rat) \<le> of_int (max h w) / of_int (min h w)"
    and "(of_int (max h w) / of_int (min h w) :: rat) \<le> of_int (2 ^ 31)"
proof -
  have m: "(1::rat) \<le> of_int (min h w)" using assms by simp
  have le: "(of_int (min h w) :: rat) \<le> of_int (max h w)" by simp
  have M: "(of_int (max h w) :: rat) \<le> of_int (2 ^ 31)" using assms by simp
  show "(of_int 1 :: rat) \<le> of_int (max h w) / of_int (min h w)"
    using m le by (simp add: pos_le_divide_eq)
  have "(of_int (max h w) :: rat) \<le> of_int (2 ^ 31) * 1" using M by simp
  also have "\<dots> \<le> of_int (2 ^ 31) * of_int (min h w)" using m by (intro mult_left_mono) simp_all
  finally show "(of_int (max h w) / of_int (min h w) :: rat) \<le> of_int (2 ^ 31)"
    using m by (simp add: pos_divide_le_eq)
qed

lemma resize_side_ok:
  assumes "1 \<le> h" "h < 2 ^ 31" "1 \<le> w" "w < 2 ^ 31"
  shows "\<exists>side. resize_side h w = Inr side \<and> 288 \<le> side \<and> side \<le> 288 * 2 ^ 31"
proof -
  have nz: "min h w \<noteq> 0" using assms by simp
  obtain r where r: "int_true_divide (max h w) (min h w) = Inr r" "of_int 1 \<le> r" "r \<le> of_int (2 ^ 31)"
    using int_true_divide_between[OF _ _ _ _ nz ratio_bounds[OF assms]] by auto
  have c: "int_to_float 288 = Inr 288" using int_to_float_exact[of 288] by simp
  have "of_int 288 \<le> r * 288" using r(2) by simp
  moreover have "r * 288 \<le> of_int (288 * 2 ^ 31)" using r(3) by simp
  ultimately obtain p where p: "float_mul r 288 = Finite p" "of_int 288 \<le> p" "p \<le> of_int (288 * 2 ^ 31)"
    using float_mul_between[of 288 "288 * 2 ^ 31" r 288] by auto
  obtain side where "float_to_int (Finite p) = Inr side" "288 \<le> side" "side \<le> 288 * 2 ^ 31"
    using float_to_int_between[OF p(2,3)] by auto
  then show ?thesis using r(1) c p(1) by (simp add: resize_side_def bindE_def)
qed

lemma factor_ok:
  fixes bd m :: int
  assumes bd: "288 \<le> bd" "bd \<le> 608" and m: "1 \<le> m" "m < 2 ^ 31"
  shows "\<exists>f. int_true_divide bd m = Inr f \<and> of_int bd < 2 * f * of_int m \<and> f \<le> 1216
           \<and> f * of_int m \<le> 1216"
proof -
  define q :: rat where "q = of_int bd / of_int m"
  have mr: "(1::rat) \<le> of_int m" "(of_int m :: rat) \<le> 2 ^ 31" using m by simp_all
  have bdr: "(288::rat) \<le> of_int bd" "(of_int bd :: rat) \<le> 608" using bd by simp_all
  have "(2::rat) powi (- 1022) \<le> 1 / 2 ^ 31"
    by (simp add: power_int_minus inverse_eq_divide)
  also have "\<dots> \<le> 1 / of_int m" using mr by (intro divide_left_mono) simp_all
  also have "\<dots> \<le> q" unfolding q_def using mr bdr by (intro divide_right_mono) simp_all
  finally have n: "(2::rat) powi (- 1022) \<le> q" .
  have qle: "q \<le> 608"
  proof -
    have "q \<le> of_int bd / 1" unfolding q_def using mr bdr by (intro divide_left_mono) simp_all
    then show ?thesis using bdr by simp
  qed
  note hd = float_round_half_double[OF n]
  have "(0::rat) < 2 powi (- 1022)" by simp
  then have pos: "0 < float_round q" using hd(1) n by linarith
  have le: "float_round q \<le> 1216" using hd(2) qle by simp
  have "\<not> float_overflows (float_round q)" using pos le by (simp add: float_overflows_def)
  then have "int_true_divide bd m = Inr (float_round q)"
    using m by (simp add: int_true_divide_def q_def)
  moreover have "of_int bd < 2 * float_round q * of_int m"
  proof -
    have "of_int bd = q * of_int m" using mr by (simp add: q_def)
    also have "\<dots> < (2 * float_round q) * of_int m"
      using hd(1) mr by (intro mult_strict_right_mono) simp_all
    finally show ?thesis .
  qed
  moreover have "float_round q * of_int m \<le> 1216"
  proof -
    have "float_round q * of_int m \<le> (2 * q) * of_int m"
      using hd(2) mr by (intro mult_right_mono) simp_all
    also have "\<dots> = 2 * of_int bd" using mr by (simp add: q_def)
    also have "\<dots> \<le> 1216" using bdr by simp
    finally show ?thesis .
  qed
  ultimately show ?thesis using le by simp
qed

lemma scaled_dim_ok:
  fixes bd m d :: int
  assumes f: "of_int bd < 2 * f * of_int m" "f \<le> 1216" "f * of_int m \<le> 1216"
    and bd: "288 \<le> bd" and m: "1 \<le> m" "m \<le> d" "d < 2 ^ 31"
  shows "\<exists>n. float_to_int (float_mul (of_int d) f) = Inr n \<and> 144 \<le> n
           \<and> (d \<le> 1000000 * m \<longrightarrow> n \<le> 1216000000)"
proof -
  have mr: "(0::rat) < of_int m" "(of_int m :: rat) \<le> of_int d" "(of_int d :: rat) \<le> 2 ^ 31"
    using m by simp_all
  have "(288::rat) \<le> of_int bd" using bd by simp
  then have fm: "144 < f * of_int m" using f(1) by simp
  have fpos: "0 < f"
  proof (rule ccontr)
    assume "\<not> 0 < f"
    then have "f * of_int m \<le> 0" using mr(1) by (simp add: mult_le_0_iff)
    with fm show False by simp
  qed
  have "f * of_int m \<le> f * of_int d" using mr(2) fpos by (intro mult_left_mono) simp_all
  then have lo: "of_int 144 \<le> of_int d * f" using fm by (simp add: mult.commute)
  define hi :: int where "hi = (if d \<le> 1000000 * m then 1216000000 else 1216 * 2 ^ 31)"
  have hi53: "0 < hi" "hi < 2 ^ 53" by (simp_all add: hi_def)
  have hi: "of_int d * f \<le> of_int hi"
  proof (cases "d \<le> 1000000 * m")
    case True
    then have "(of_int d :: rat) \<le> of_int (1000000 * m)" by (simp only: of_int_le_iff)
    then have "of_int d * f \<le> of_int (1000000 * m) * f"
      using fpos by (intro mult_right_mono) simp_all
    also have "\<dots> = 1000000 * (f * of_int m)" by simp
    also have "\<dots> \<le> 1000000 * 1216" using f(3) by (intro mult_left_mono) simp_all
    finally show ?thesis using True by (simp add: hi_def)
  next
    case False
    have "of_int d * f \<le> 2 ^ 31 * f" using mr(3) fpos by (intro mult_right_mono) simp_all
    also have "\<dots> \<le> 2 ^ 31 * 1216" using f(2) by (intro mult_left_mono) simp_all
    finally show ?thesis using False by (simp add: hi_def)
  qed
  obtain p where p: "float_mul (of_int d) f = Finite p" "of_int 144 \<le> p" "p \<le> of_int hi"
    using float_mul_between[OF _ _ hi53 lo hi] by auto
  obtain n where "float_to_int (Finite p) = Inr n" "144 \<le> n" "n \<le> hi"
    using float_to_int_between[OF p(2,3)] by auto
  then show ?thesis using p(1) by (auto simp: hi_def)
qed

lemma resize_bound_dim_ok:
  assumes "1 \<le> h" "h < 2 ^ 31" "1 \<le> w" "w < 2 ^ 31"
  shows "\<exists>side. resize_side h w = Inr side \<and> 288 \<le> side
           \<and> resize_bound_dim h w = Inr (min (side + side mod 16) 608)
           \<and> 288 \<le> min (side + side mod 16) 608"
proof -
  obtain side where s: "resize_side h w = Inr side" "288 \<le> side"
    using resize_side_ok[OF assms] by auto
  have "0 \<le> side mod 16" by simp
  then have "288 \<le> min (side + side mod 16) 608" using s(2) by simp
  then show ?thesis using s by (simp add: resize_bound_dim_def bindE_def)
qed

lemma resize_target_ok:
  assumes "1 \<le> h" "h < 2 ^ 31" "1 \<le> w" "w < 2 ^ 31"
  shows "\<exists>reg_w reg_h. resize_target h w = Inr (reg_w, reg_h) \<and> 144 \<le> reg_w \<and> 144 \<le> reg_h
           \<and> (max h w \<le> 1000000 * min h w \<longrightarrow> reg_w \<le> 1216000000 \<and> reg_h \<le> 1216000000)"
proof -
  obtain bd where bd: "resize_bound_dim h w = Inr bd" "288 \<le> bd" "bd \<le> 608"
    using resize_bound_dim_ok[OF assms] by auto
  have m: "1 \<le> min h w" "min h w < 2 ^ 31" "min h w \<le> w" "min h w \<le> h" using assms by simp_all
  obtain f where f: "int_true_divide bd (min h w) = Inr f"
      "of_int bd < 2 * f * of_int (min h w)" "f \<le> 1216" "f * of_int (min h w) \<le> 1216"
    using factor_ok[OF bd(2,3) m(1,2)] by auto
  have wf: "int_to_float w = Inr (of_int w)" using assms by (intro int_to_float_exact) simp_all
  have hf: "int_to_float h = Inr (of_int h)" using assms by (intro int_to_float_exact) simp_all
  obtain rw where rw: "float_to_int (float_mul (of_int w) f) = Inr rw" "144 \<le> rw"
      "w \<le> 1000000 * min h w \<longrightarrow> rw \<le> 1216000000"
    using scaled_dim_ok[OF f(2,3,4) bd(2) m(1) m(3) assms(4)] by auto
  obtain rh where rh: "float_to_int (float_mul (of_int h) f) = Inr rh" "144 \<le> rh"
      "h \<le> 1000000 * min h w \<longrightarrow> rh \<le> 1216000000"
    using scaled_dim_ok[OF f(2,3,4) bd(2) m(1) m(4) assms(2)] by auto
  have "resize_target h w = Inr (rw, rh)"
    using bd(1) f(1) wf hf rw(1) rh(1) by (simp add: resize_target_def bindE_def)
  moreover have "max h w \<le> 1000000 * min h w \<longrightarrow> rw \<le> 1216000000 \<and> rh \<le> 1216000000"
    using rw(3) rh(3) by simp
  ultimately show ?thesis using rw(2) rh(2) by blast
qed

lemma resize_returns:
  assumes "1 \<le> h" "h < 2 ^ 31" "1 \<le> w" "w < 2 ^ 31"
    and "max h w \<le> 1000000 * min h w" and "\<And>s. alloc s"
  shows "\<exists>resized. resize_to_fixed_ratio alloc h w = Inr resized"
proof -
  obtain reg_w reg_h where "resize_target h w = Inr (reg_w, reg_h)" "144 \<le> reg_w" "144 \<le> reg_h"
      "reg_w \<le> 1216000000" "reg_h \<le> 1216000000"
    using resize_target_ok[OF assms(1-4)] assms(5) by blast
  then show ?thesis
    using assms(6) by (simp add: resize_to_fixed_ratio_def image_resize_def c_int_def bindE_def)
qed

lemma float_round_numeral: "numeral k < (2::int) ^ 53 \<Longrightarrow> float_round (numeral k) = numeral k"
  using float_round_int[of "numeral k"] by simp

lemma float_round_nine_eighths: "float_round (9 / 8) = 9 / 8"
  using float_round_dyadic[of 9 3] by simp

lemma float_round_one: "float_round 1 = 1"
  using float_round_int[of 1] by simp

lemma float_round_nine_halves: "float_round (9 / 2) = 9 / 2"
  using float_round_dyadic[of 9 1] by simp

lemma resize_target_1_1: "resize_target 1 1 = Inr (288, 288)"
  by (simp add: resize_target_def resize_bound_dim_def resize_side_def int_true_divide_def
      int_to_float_def float_mul_def float_to_int_def bindE_def float_overflows_def
      float_round_numeral float_round_one)

lemma resize_side_8_9: "resize_side 8 9 = Inr 324"
  by (simp add: resize_side_def int_true_divide_def int_to_float_def float_mul_def
      float_to_int_def bindE_def float_overflows_def float_round_numeral float_round_nine_eighths)

lemma resize_target_128_256: "resize_target 128 256 = Inr (1152, 576)"
  by (simp add: resize_target_def resize_bound_dim_def resize_side_def int_true_divide_def
      int_to_float_def float_mul_def float_to_int_def bindE_def float_overflows_def
      float_round_numeral float_round_nine_halves)

lemma resize_128_256: "resize_to_fixed_ratio (\<lambda>s. True) 128 256 = Inr (1152, 576)"
  by (simp add: resize_to_fixed_ratio_def resize_target_128_256 image_resize_def c_int_def
      bindE_def)

text \<open>
  C7 (as amended).  The resizer validates nothing and the module has no
  \<^verbatim>\<open>InvalidImageError\<close>.  For an image with zero height or zero width (Pillow never
  reports a negative size) the first statement divides by \<open>min(h, w) = 0\<close>, and the
  call fails with Python's \<^verbatim>\<open>ZeroDivisionError\<close>.
\<close>

theorem resize_zero_dimension:
  assumes "0 \<le> h" "0 \<le> w" "h = 0 \<or> w = 0"
  shows "resize_to_fixed_ratio alloc h w = Inl ZeroDivisionError"
proof -
  have "min h w = 0" using assms by (auto simp: min_def)
  then show ?thesis
    by (simp add: resize_to_fixed_ratio_def resize_target_def resize_bound_dim_def
        resize_side_def int_true_divide_def bindE_def)
qed

theorem resize_zero_dimension_witness:
  "(0::int) \<le> 3 \<and> (0::int) \<le> 0
   \<and> resize_to_fixed_ratio (\<lambda>s. True) 3 0 = Inl ZeroDivisionError"
  using resize_zero_dimension [of 3 0 "\<lambda>s. True"] by simp

text \<open>
  The exception raised for a \<open>0 \<times> 5\<close> image is the built-in one, not the
  \<^verbatim>\<open>InvalidImageError\<close> of the specification.
\<close>

theorem resize_zero_height_raises_zero_division:
  "resize_to_fixed_ratio (\<lambda>s. True) 0 5 = Inl ZeroDivisionError"
  by (simp add: resize_to_fixed_ratio_def resize_target_def resize_bound_dim_def
      resize_side_def int_true_divide_def bindE_def)

lemma bound_dim_in_range:
  assumes "1 \<le> h" "h < 2 ^ 31" "1 \<le> w" "w < 2 ^ 31"
  shows "\<exists>bound_dim. resize_bound_dim h w = Inr bound_dim \<and> 288 \<le> bound_dim \<and> bound_dim \<le> 608"
  using resize_bound_dim_ok[OF assms] by auto

text \<open>
  C4.  \<open>bound_dim\<close> is meant to be aligned to the stride of the network: a multiple of 16
  unless it is capped at 608.  The code adds \<open>side mod 16\<close> to \<open>side\<close>, which doubles the
  remainder instead of adding the distance to the next multiple of 16.  An \<open>8 \<times> 9\<close> image
  has \<open>wh_ratio = 1.125\<close> and \<open>side = 324\<close>, every step being exact in binary64, and the
  code computes \<open>bound_dim = 324 + 4 = 328\<close>, which is below the cap and is not a multiple
  of 16 (rounding up would give 336).  The other half of the claim holds: \<open>bound_dim\<close> lies
  in \<open>[288, 608]\<close>, hence in \<open>[16, 608]\<close>.
\<close>

theorem bound_dim_not_multiple_of_16:
  "resize_bound_dim 8 9 = Inr 328 \<and> \<not> 16 dvd (328::int) \<and> (328::int) \<noteq> 608"
  by (simp add: resize_bound_dim_def bindE_def resize_side_8_9)

text \<open>
  C9 (as amended).  The model is a function of \<open>(h, w)\<close> and of what Pillow can allocate:
  the source reads no other state and draws no random number.  For every \<open>1 \<le> h, w\<close>
  (below \<open>2\<^sup>3\<^sup>1\<close>, as for every Pillow image) the target size \<open>(reg_w, reg_h)\<close> is
  computed without a division by zero and without an overflow, and both sizes are at
  least 1.  The call of \<^verbatim>\<open>image.resize\<close> then raises \<^verbatim>\<open>OverflowError\<close> if a target size
  does not fit a C \<^verbatim>\<open>int\<close>, and \<^verbatim>\<open>MemoryError\<close> if Pillow cannot allocate the target;
  otherwise the resizer returns the image of size \<open>(reg_w, reg_h)\<close>.  Both target sizes
  fit whenever the longer side of the image is at most \<open>10\<^sup>6\<close> times the shorter one.
  The degenerate \<open>1 \<times> 1\<close> image is resized to \<open>288 \<times> 288\<close>.
\<close>

theorem resize_outcome:
  assumes "1 \<le> h" "h < 2 ^ 31" "1 \<le> w" "w < 2 ^ 31"
  shows "\<exists>reg_w reg_h.
           resize_target h w = Inr (reg_w, reg_h) \<and> 1 \<le> reg_w \<and> 1 \<le> reg_h
         \<and> resize_to_fixed_ratio alloc h w =
             (if 2 ^ 31 \<le> reg_w \<or> 2 ^ 31 \<le> reg_h then Inl OverflowError
              else if alloc (reg_w, reg_h) then Inr (reg_w, reg_h)
              else Inl MemoryError)
         \<and> (max h w \<le> 1000000 * min h w \<longrightarrow> reg_w < 2 ^ 31 \<and> reg_h < 2 ^ 31)"
proof -
  obtain reg_w reg_h where r: "resize_target h w = Inr (reg_w, reg_h)" "144 \<le> reg_w" "144 \<le> reg_h"
      "max h w \<le> 1000000 * min h w \<longrightarrow> reg_w \<le> 1216000000 \<and> reg_h \<le> 1216000000"
    using resize_target_ok[OF assms] by blast
  have "resize_to_fixed_ratio alloc h w =
             (if 2 ^ 31 \<le> reg_w \<or> 2 ^ 31 \<le> reg_h then Inl OverflowError
              else if alloc (reg_w, reg_h) then Inr (reg_w, reg_h)
              else Inl MemoryError)"
    using r(1,2,3) by (simp add: resize_to_fixed_ratio_def image_resize_def c_int_def bindE_def)
  moreover have "max h w \<le> 1000000 * min h w \<longrightarrow> reg_w < 2 ^ 31 \<and> reg_h < 2 ^ 31"
    using r(4) by auto
  moreover have "1 \<le> reg_w" "1 \<le> reg_h" using r(2,3) by simp_all
  ultimately show ?thesis using r(1) by blast
qed

theorem resize_outcome_witness:
  "resize_target 1 1 = Inr (288, 288)
   \<and> resize_to_fixed_ratio (\<lambda>s. True) 1 1 = Inr (288, 288) \<and> (1::int) \<le> 288"
proof -
  obtain reg_w reg_h where "resize_target 1 1 = Inr (reg_w, reg_h)"
      "resize_to_fixed_ratio (\<lambda>s. True) 1 1 =
             (if 2 ^ 31 \<le> reg_w \<or> 2 ^ 31 \<le> reg_h then Inl OverflowError
              else if True then Inr (reg_w, reg_h) else Inl MemoryError)"
    using resize_outcome[of 1 1 "\<lambda>s. True"] by auto
  then show ?thesis using resize_target_1_1 by simp
qed

text \<open>
  An image of height 1 and width 4000000 satisfies \<open>h, w \<ge> 1\<close>.  Every step of the
  arithmetic is exact: \<open>wh_ratio = 4000000\<close>, \<open>bound_dim = factor = 608\<close>, and the target
  size is \<open>(2432000000, 608)\<close>.  The width exceeds \<open>2\<^sup>3\<^sup>1 - 1\<close>, and the resizer fails
  with \<^verbatim>\<open>OverflowError\<close> in \<^verbatim>\<open>image.resize\<close>, whatever can be allocated.
\<close>

theorem resize_wide_image_overflow:
  "resize_target 1 4000000 = Inr (2432000000, 608)
   \<and> resize_to_fixed_ratio (\<lambda>s. True) 1 4000000 = Inl OverflowError"
proof -
  have t: "resize_target 1 4000000 = Inr (2432000000, 608)"
    by (simp add: resize_target_def resize_bound_dim_def resize_side_def int_true_divide_def
        int_to_float_def float_mul_def float_to_int_def bindE_def float_overflows_def
        float_round_numeral float_round_one)
  show ?thesis
    by (simp add: t resize_to_fixed_ratio_def image_resize_def c_int_def bindE_def)
qed

section \<open>Properties of the affine decoder\<close>

lemma float_round_zero: "float_round 0 = 0"
  by (simp add: float_round_def)

lemma float_round_exact:
  shows "float_round (1 / 8) = 1 / 8"
    and "float_round (15 / 64) = 15 / 64"
    and "float_round (1 / 4) = 1 / 4"
    and "float_round (3 / 8) = 3 / 8"
    and "float_round (15 / 32) = 15 / 32"
    and "float_round (1 / 2) = 1 / 2"
    and "float_round (3 / 4) = 3 / 4"
    and "float_round (31 / 32) = 31 / 32"
    and "float_round (19 / 16) = 19 / 16"
    and "float_round (5 / 4) = 5 / 4"
    and "float_round (3 / 2) = 3 / 2"
    and "float_round (109 / 64) = 109 / 64"
    and "float_round (19 / 8) = 19 / 8"
    and "float_round (23 / 8) = 23 / 8"
    and "float_round (93 / 32) = 93 / 32"
    and "float_round (25 / 8) = 25 / 8"
    and "float_round (27 / 8) = 27 / 8"
    and "float_round (109 / 32) = 109 / 32"
    and "float_round (31 / 8) = 31 / 8"
    and "float_round (35 / 8) = 35 / 8"
    and "float_round (37 / 8) = 37 / 8"
    and "float_round (25 / 4) = 25 / 4"
    and "float_round (105 / 16) = 105 / 16"
    and "float_round (27 / 4) = 27 / 4"
    and "float_round (31 / 4) = 31 / 4"
    and "float_round (35 / 4) = 35 / 4"
    and "float_round (37 / 4) = 37 / 4"
    and "float_round (93 / 8) = 93 / 8"
    and "float_round (101 / 8) = 101 / 8"
    and "float_round (105 / 8) = 105 / 8"
proof -
  show "float_round (1 / 8) = 1 / 8"
    using float_round_dyadic[of 1 3] by simp
  show "float_round (15 / 64) = 15 / 64"
    using float_round_dyadic[of 15 6] by simp
  show "float_round (1 / 4) = 1 / 4"
    using float_round_dyadic[of 1 2] by simp
  show "float_round (3 / 8) = 3 / 8"
    using float_round_dyadic[of 3 3] by simp
  show "float_round (15 / 32) = 15 / 32"
    using float_round_dyadic[of 15 5] by simp
  show "float_round (1 / 2) = 1 / 2"
    using float_round_dyadic[of 1 1] by simp
  show "float_round (3 / 4) = 3 / 4"
    using float_round_dyadic[of 3 2] by simp
  show "float_round (31 / 32) = 31 / 32"
    using float_round_dyadic[of 31 5] by simp
  show "float_round (19 / 16) = 19 / 16"
    using float_round_dyadic[of 19 4] by simp
  show "float_round (5 / 4) = 5 / 4"
    using float_round_dyadic[of 5 2] by simp
  show "float_round (3 / 2) = 3 / 2"
    using float_round_dyadic[of 3 1] by simp
  show "float_round (109 / 64) = 109 / 64"
    using float_round_dyadic[of 109 6] by simp
  show "float_round (19 / 8) = 19 / 8"
    using float_round_dyadic[of 19 3] by simp
  show "float_round (23 / 8) = 23 / 8"
    using float_round_dyadic[of 23 3] by simp
  show "float_round (93 / 32) = 93 / 32"
    using float_round_dyadic[of 93 5] by simp
  show "float_round (25 / 8) = 25 / 8"
    using float_round_dyadic[of 25 3] by simp
  show "float_round (27 / 8) = 27 / 8"
    using float_round_dyadic[of 27 3] by simp
  show "float_round (109 / 32) = 109 / 32"
    using float_round_dyadic[of 109 5] by simp
  show "float_round (31 / 8) = 31 / 8"
    using float_round_dyadic[of 31 3] by simp
  show "float_round (35 / 8) = 35 / 8"
    using float_round_dyadic[of 35 3] by simp
  show "float_round (37 / 8) = 37 / 8"
    using float_round_dyadic[of 37 3] by simp
  show "float_round (25 / 4) = 25 / 4"
    using float_round_dyadic[of 25 2] by simp
  show "float_round (105 / 16) = 105 / 16"
    using float_round_dyadic[of 105 4] by simp
  show "float_round (27 / 4) = 27 / 4"
    using float_round_dyadic[of 27 2] by simp
  show "float_round (31 / 4) = 31 / 4"
    using float_round_dyadic[of 31 2] by simp
  show "float_round (35 / 4) = 35 / 4"
    using float_round_dyadic[of 35 2] by simp
  show "float_round (37 / 4) = 37 / 4"
    using float_round_dyadic[of 37 2] by simp
  show "float_round (93 / 8) = 93 / 8"
    using float_round_dyadic[of 93 3] by simp
  show "float_round (101 / 8) = 101 / 8"
    using float_round_dyadic[of 101 3] by simp
  show "float_round (105 / 8) = 105 / 8"
    using float_round_dyadic[of 105 3] by simp
qed

lemmas f64_defs = f64_add_def f64_mul_def f64_div_def

lemma flat3_less:
  assumes "k < a_channels A" "y < a_grid_h A" "x < a_grid_w A"
  shows "flat3 A k y x < a_channels A * a_grid_h A * a_grid_w A"
proof -
  have "k * a_grid_h A + y < a_channels A * a_grid_h A"
  proof -
    have "k * a_grid_h A + y < k * a_grid_h A + a_grid_h A" using assms(2) by simp
    also have "\<dots> = Suc k * a_grid_h A" by simp
    also have "\<dots> \<le> a_channels A * a_grid_h A" using assms(1) by (intro mult_le_mono1) simp
    finally show ?thesis .
  qed
  then have "Suc (k * a_grid_h A + y) * a_grid_w A \<le> a_channels A * a_grid_h A * a_grid_w A"
    by (intro mult_le_mono1) simp
  moreover have "flat3 A k y x < Suc (k * a_grid_h A + y) * a_grid_w A"
    using assms(3) by (simp add: flat3_def)
  ultimately show ?thesis by linarith
qed

lemma flat3_inj:
  assumes "y < a_grid_h A" "x < a_grid_w A" "y' < a_grid_h A" "x' < a_grid_w A"
  shows "flat3 A k y x = flat3 A k' y' x' \<longleftrightarrow> k = k' \<and> y = y' \<and> x = x'"
proof
  assume eq: "flat3 A k y x = flat3 A k' y' x'"
  have "flat3 A k y x mod a_grid_w A = x" "flat3 A k' y' x' mod a_grid_w A = x'"
    using assms by (simp_all add: flat3_def)
  then have x: "x = x'" using eq by simp
  have "flat3 A k y x div a_grid_w A = k * a_grid_h A + y"
       "flat3 A k' y' x' div a_grid_w A = k' * a_grid_h A + y'"
    using assms by (simp_all add: flat3_def)
  then have e2: "k * a_grid_h A + y = k' * a_grid_h A + y'" using eq by simp
  have "(k * a_grid_h A + y) mod a_grid_h A = y" "(k' * a_grid_h A + y') mod a_grid_h A = y'"
    using assms by simp_all
  then have y: "y = y'" using e2 by simp
  have "(k * a_grid_h A + y) div a_grid_h A = k" "(k' * a_grid_h A + y') div a_grid_h A = k'"
    using assms by simp_all
  then have "k = k'" using e2 by simp
  then show "k = k' \<and> y = y' \<and> x = x'" using x y by simp
qed simp

lemma index_axis_nat: "i < n \<Longrightarrow> index_axis (int i) n = Inr i"
  by (simp add: index_axis_def)

lemma matmul_theta_q:
  "matmul [[a, b, c], [d, e, f]] q =
     [[f64_add (f64_add (f64_mul a (- 0.5)) (f64_mul b (- 0.5))) (f64_mul c 1),
       f64_add (f64_add (f64_mul a 0.5) (f64_mul b (- 0.5))) (f64_mul c 1),
       f64_add (f64_add (f64_mul a 0.5) (f64_mul b 0.5)) (f64_mul c 1),
       f64_add (f64_add (f64_mul a (- 0.5)) (f64_mul b 0.5)) (f64_mul c 1)],
      [f64_add (f64_add (f64_mul d (- 0.5)) (f64_mul e (- 0.5))) (f64_mul f 1),
       f64_add (f64_add (f64_mul d 0.5) (f64_mul e (- 0.5))) (f64_mul f 1),
       f64_add (f64_add (f64_mul d 0.5) (f64_mul e 0.5)) (f64_mul f 1),
       f64_add (f64_add (f64_mul d (- 0.5)) (f64_mul e 0.5)) (f64_mul f 1)]]"
  by (simp add: matmul_def q_def)

lemma flat3_data_update [simp]: "flat3 (A\<lparr>a_data := d\<rparr>) k y x = flat3 A k y x"
  by (simp add: flat3_def)

lemma get_bounds_eq:
  assumes wf: "wf_affines A" and c: "a_channels A = 6"
    and y: "ay < a_grid_h A" and x: "ax < a_grid_w A"
  shows "get_bounds A (int ay) (int ax) =
           Inr (binary64_quad A ay ax,
                set_affine (set_affine A 0 ay ax (max (affine_at A 0 ay ax) 0)) 4 ay ax
                  (max (affine_at A 4 ay ax) 0))"
proof -
  have len: "flat3 A k ay ax < length (a_data A)" if "k < 6" for k
    using flat3_less[of k A ay ax] that wf c y x by (simp add: wf_affines_def)
  have inj: "flat3 A k ay ax = flat3 A k' ay ax \<longleftrightarrow> k = k'" for k k'
    using flat3_inj[OF y x y x, of k k'] by simp
  show ?thesis
    by (simp add: get_bounds_def index_axis_nat y x bindE_def c Let_def len inj matmul_theta_q
        binary64_quad_def binary64_corner_def affine_at_def set_affine_def scaling_const_def
        eval_nat_numeral)
qed

lemma wf_set_affine: "wf_affines (set_affine A k y x v) = wf_affines A"
  by (simp add: wf_affines_def set_affine_def)

lemma shape_set_affine:
  "a_channels (set_affine A k y x v) = a_channels A"
  "a_grid_h (set_affine A k y x v) = a_grid_h A"
  "a_grid_w (set_affine A k y x v) = a_grid_w A"
  by (simp_all add: set_affine_def)

lemma flat3_set_affine: "flat3 (set_affine A k y x v) k' y' x' = flat3 A k' y' x'"
  by (simp add: set_affine_def)

lemma affine_at_set_affine:
  assumes "wf_affines A" "k < a_channels A" "y < a_grid_h A" "x < a_grid_w A"
    and "y' < a_grid_h A" "x' < a_grid_w A"
  shows "affine_at (set_affine A k y x v) k' y' x' =
           (if k' = k \<and> y' = y \<and> x' = x then v else affine_at A k' y' x')"
proof -
  have "flat3 A k y x < length (a_data A)"
    using flat3_less[OF assms(2-4)] assms(1) by (simp add: wf_affines_def)
  moreover have "flat3 A k' y' x' = flat3 A k y x \<longleftrightarrow> k' = k \<and> y' = y \<and> x' = x"
    using assms by (intro flat3_inj)
  ultimately show ?thesis
    by (auto simp: affine_at_def set_affine_def)
qed




text \<open>
  C3 (as amended).  For the parameters \<open>a = 1, e = 1\<close>, all others 0, at anchor \<open>(0, 0)\<close>
  of a \<open>1 \<times> 1\<close> grid the corners come in the order top-left, top-right, bottom-right,
  bottom-left, at \<open>(-3.375, -3.375), (4.375, -3.375), (4.375, 4.375), (-3.375, 4.375)\<close>:
  a square of side \<open>7.75\<close> centred on the cell, which is not inside the unit square.
\<close>

theorem identity_corners:
  "get_bounds \<lparr>a_channels = 6, a_grid_h = 1, a_grid_w = 1, a_data = [1, 0, 0, 0, 1, 0]\<rparr> 0 0
     = Inr ([(- 27 / 8, - 27 / 8), (35 / 8, - 27 / 8), (35 / 8, 35 / 8), (- 27 / 8, 35 / 8)],
            \<lparr>a_channels = 6, a_grid_h = 1, a_grid_w = 1, a_data = [1, 0, 0, 0, 1, 0]\<rparr>)"
  by (simp add: get_bounds_def index_axis_def bindE_def flat3_def matmul_theta_q
      scaling_const_def Let_def f64_defs float_round_minus float_round_zero float_round_one
      float_round_exact)

text \<open>
  The top-left corner has a negative abscissa and the top-right one an abscissa above 1,
  so the corners do not lie within \<open>[0, 1] \<times> [0, 1]\<close>.
\<close>

theorem identity_corner_outside_unit_square:
  "(case get_bounds \<lparr>a_channels = 6, a_grid_h = 1, a_grid_w = 1, a_data = [1, 0, 0, 0, 1, 0]\<rparr> 0 0 of
      Inl e \<Rightarrow> False
    | Inr (quad, affines') \<Rightarrow> fst (quad ! 0) < 0 \<and> 1 < fst (quad ! 1))"
  by (simp add: get_bounds_def index_axis_def bindE_def flat3_def matmul_theta_q
      scaling_const_def Let_def f64_defs float_round_minus float_round_zero float_round_one
      float_round_exact)

text \<open>
  C8.  Whatever the other entries of the grid are, decoding an anchor whose \<open>\<theta>\<^sub>0\<^sub>0\<close> is
  \<open>-2\<close> gives the same quadrilateral as decoding it with \<open>\<theta>\<^sub>0\<^sub>0 = 0\<close>, and leaves the
  same grid behind: the negative scale is clamped, not mirrored.
\<close>

theorem scale_clamp:
  assumes "wf_affines affines" "a_channels affines = 6"
    and "anchor_y < a_grid_h affines" "anchor_x < a_grid_w affines"
  shows "\<exists>quad affines'.
           get_bounds (set_affine affines 0 anchor_y anchor_x (- 2)) (int anchor_y) (int anchor_x)
             = Inr (quad, affines')
         \<and> get_bounds (set_affine affines 0 anchor_y anchor_x 0) (int anchor_y) (int anchor_x)
             = Inr (quad, affines')"
proof -
  have k: "0 < a_channels affines" "4 < a_channels affines" using assms(2) by simp_all
  note at = affine_at_set_affine[OF assms(1) k(1) assms(3,4) assms(3,4)]
  have q: "binary64_quad (set_affine affines 0 anchor_y anchor_x (- 2)) anchor_y anchor_x
         = binary64_quad (set_affine affines 0 anchor_y anchor_x 0) anchor_y anchor_x"
    by (simp add: binary64_quad_def binary64_corner_def at shape_set_affine)
  have g: "set_affine (set_affine (set_affine affines 0 anchor_y anchor_x (- 2)) 0 anchor_y anchor_x
              (max (affine_at (set_affine affines 0 anchor_y anchor_x (- 2)) 0 anchor_y anchor_x) 0))
            4 anchor_y anchor_x
              (max (affine_at (set_affine affines 0 anchor_y anchor_x (- 2)) 4 anchor_y anchor_x) 0)
         = set_affine (set_affine (set_affine affines 0 anchor_y anchor_x 0) 0 anchor_y anchor_x
              (max (affine_at (set_affine affines 0 anchor_y anchor_x 0) 0 anchor_y anchor_x) 0))
            4 anchor_y anchor_x
              (max (affine_at (set_affine affines 0 anchor_y anchor_x 0) 4 anchor_y anchor_x) 0)"
    by (simp add: at) (simp add: set_affine_def)
  have "get_bounds (set_affine affines 0 anchor_y anchor_x v) (int anchor_y) (int anchor_x)
      = Inr (binary64_quad (set_affine affines 0 anchor_y anchor_x v) anchor_y anchor_x,
          set_affine (set_affine (set_affine affines 0 anchor_y anchor_x v) 0 anchor_y anchor_x
              (max (affine_at (set_affine affines 0 anchor_y anchor_x v) 0 anchor_y anchor_x) 0))
            4 anchor_y anchor_x
              (max (affine_at (set_affine affines 0 anchor_y anchor_x v) 4 anchor_y anchor_x) 0))" for v
    using assms by (intro get_bounds_eq) (simp_all add: wf_set_affine shape_set_affine)
  from this[of "- 2"] this[of 0] show ?thesis unfolding q g by blast
qed

theorem scale_clamp_witness:
  "\<exists>quad affines'.
     get_bounds \<lparr>a_channels = 6, a_grid_h = 1, a_grid_w = 2,
                 a_data = [0, - 2, 0, 1 / 2, 0, 1 / 4, 0, - 1 / 2, 0, - 1, 0, 1 / 8]\<rparr> 0 1
       = Inr (quad, affines')
   \<and> get_bounds \<lparr>a_channels = 6, a_grid_h = 1, a_grid_w = 2,
                 a_data = [0, 0, 0, 1 / 2, 0, 1 / 4, 0, - 1 / 2, 0, - 1, 0, 1 / 8]\<rparr> 0 1
       = Inr (quad, affines')"
  using scale_clamp[of "\<lparr>a_channels = 6, a_grid_h = 1, a_grid_w = 2,
                 a_data = [0, 7, 0, 1 / 2, 0, 1 / 4, 0, - 1 / 2, 0, - 1, 0, 1 / 8]\<rparr>" 0 1]
  by (simp add: wf_affines_def set_affine_def flat3_def)

text \<open>
  C10.  Decoding an anchor writes to the grid it reads from: after the call the entries
  \<open>(0, anchor_y, anchor_x)\<close> and \<open>(4, anchor_y, anchor_x)\<close> hold \<open>max(original, 0)\<close>,
  every other entry and the shape are unchanged.
\<close>

theorem clamp_writes_through:
  assumes "wf_affines affines" "a_channels affines = 6"
    and "anchor_y < a_grid_h affines" "anchor_x < a_grid_w affines"
  shows "\<exists>quad affines'.
           get_bounds affines (int anchor_y) (int anchor_x) = Inr (quad, affines')
         \<and> a_channels affines' = 6 \<and> a_grid_h affines' = a_grid_h affines
         \<and> a_grid_w affines' = a_grid_w affines \<and> wf_affines affines'
         \<and> affine_at affines' 0 anchor_y anchor_x = max (affine_at affines 0 anchor_y anchor_x) 0
         \<and> affine_at affines' 4 anchor_y anchor_x = max (affine_at affines 4 anchor_y anchor_x) 0
         \<and> (\<forall>k y x. k < 6 \<and> y < a_grid_h affines \<and> x < a_grid_w affines
                \<and> (k, y, x) \<noteq> (0, anchor_y, anchor_x) \<and> (k, y, x) \<noteq> (4, anchor_y, anchor_x)
              \<longrightarrow> affine_at affines' k y x = affine_at affines k y x)"
proof -
  define a' where "a' = max (affine_at affines 0 anchor_y anchor_x) 0"
  define e' where "e' = max (affine_at affines 4 anchor_y anchor_x) 0"
  define A1 where "A1 = set_affine affines 0 anchor_y anchor_x a'"
  define A2 where "A2 = set_affine A1 4 anchor_y anchor_x e'"
  have k: "0 < a_channels affines" "4 < a_channels affines" using assms(2) by simp_all
  have gb: "get_bounds affines (int anchor_y) (int anchor_x)
              = Inr (binary64_quad affines anchor_y anchor_x, A2)"
    unfolding A2_def A1_def a'_def e'_def using assms by (rule get_bounds_eq)
  have wf1: "wf_affines A1" and sh1: "a_channels A1 = a_channels affines"
      "a_grid_h A1 = a_grid_h affines" "a_grid_w A1 = a_grid_w affines"
    using assms(1) by (simp_all add: A1_def wf_set_affine shape_set_affine)
  have at1: "affine_at A1 k y x =
      (if k = 0 \<and> y = anchor_y \<and> x = anchor_x then a' else affine_at affines k y x)"
    if "y < a_grid_h affines" "x < a_grid_w affines" for k y x
    unfolding A1_def using assms(1) k(1) assms(3,4) that by (rule affine_at_set_affine)
  have at2: "affine_at A2 k y x =
      (if k = 4 \<and> y = anchor_y \<and> x = anchor_x then e' else affine_at A1 k y x)"
    if "y < a_grid_h affines" "x < a_grid_w affines" for k y x
    unfolding A2_def using wf1 k(2) assms(3,4) that
    by (intro affine_at_set_affine) (simp_all add: sh1)
  have "a_channels A2 = 6" "a_grid_h A2 = a_grid_h affines" "a_grid_w A2 = a_grid_w affines"
      "wf_affines A2"
    using wf1 sh1 assms(2) by (simp_all add: A2_def wf_set_affine shape_set_affine)
  moreover have "affine_at A2 0 anchor_y anchor_x = a'" "affine_at A2 4 anchor_y anchor_x = e'"
    using assms(3,4) by (simp_all add: at2 at1)
  moreover have "\<forall>k y x. k < 6 \<and> y < a_grid_h affines \<and> x < a_grid_w affines
                \<and> (k, y, x) \<noteq> (0, anchor_y, anchor_x) \<and> (k, y, x) \<noteq> (4, anchor_y, anchor_x)
              \<longrightarrow> affine_at A2 k y x = affine_at affines k y x"
    by (auto simp: at2 at1)
  ultimately show ?thesis using gb unfolding a'_def e'_def by blast
qed

theorem clamp_writes_through_witness:
  "\<exists>quad.
     get_bounds \<lparr>a_channels = 6, a_grid_h = 1, a_grid_w = 2,
                 a_data = [3, - 2, 0, 1 / 2, 0, 1 / 4, 0, - 1 / 2, - 5, - 1, 0, 1 / 8]\<rparr> 0 1
       = Inr (quad, \<lparr>a_channels = 6, a_grid_h = 1, a_grid_w = 2,
                 a_data = [3, 0, 0, 1 / 2, 0, 1 / 4, 0, - 1 / 2, - 5, 0, 0, 1 / 8]\<rparr>)"
proof -
  let ?G = "\<lparr>a_channels = 6, a_grid_h = 1, a_grid_w = 2,
              a_data = [3, - 2, 0, 1 / 2, 0, 1 / 4, 0, - 1 / 2, - 5, - 1, 0, 1 / 8 :: rat]\<rparr>"
  have hyp: "wf_affines ?G" "a_channels ?G = 6" "0 < a_grid_h ?G" "1 < a_grid_w ?G"
    by (simp_all add: wf_affines_def)
  obtain quad G' where g: "get_bounds ?G (int 0) (int 1) = Inr (quad, G')"
    using clamp_writes_through[OF hyp] by blast
  have "get_bounds ?G 0 1 = Inr (binary64_quad ?G 0 1, \<lparr>a_channels = 6, a_grid_h = 1, a_grid_w = 2,
                 a_data = [3, 0, 0, 1 / 2, 0, 1 / 4, 0, - 1 / 2, - 5, 0, 0, 1 / 8]\<rparr>)"
    using get_bounds_eq[OF hyp] by (simp add: set_affine_def flat3_def affine_at_def)
  with g show ?thesis by simp
qed

section \<open>Properties of the anchor selector and of the predictor\<close>

lemma argmax_from_spec:
  assumes "length pre = i" "mi < i" "mp = pre ! mi"
    and "\<forall>j<i. pre ! j \<le> mp" "\<forall>j<mi. pre ! j < mp"
  shows "argmax_from xs i mp mi < length (pre @ xs)
       \<and> (\<forall>j<length (pre @ xs). (pre @ xs) ! j \<le> (pre @ xs) ! argmax_from xs i mp mi)
       \<and> (\<forall>j<argmax_from xs i mp mi. (pre @ xs) ! j < (pre @ xs) ! argmax_from xs i mp mi)"
  using assms
proof (induction xs arbitrary: pre i mp mi)
  case Nil
  then show ?case by simp
next
  case (Cons x xs)
  have app: "pre @ x # xs = (pre @ [x]) @ xs" by simp
  show ?case
  proof (cases "mp < x")
    case True
    have "argmax_from xs (Suc i) x i < length ((pre @ [x]) @ xs)
       \<and> (\<forall>j<length ((pre @ [x]) @ xs). ((pre @ [x]) @ xs) ! j \<le> ((pre @ [x]) @ xs) ! argmax_from xs (Suc i) x i)
       \<and> (\<forall>j<argmax_from xs (Suc i) x i. ((pre @ [x]) @ xs) ! j < ((pre @ [x]) @ xs) ! argmax_from xs (Suc i) x i)"
    proof (rule Cons.IH)
      show "length (pre @ [x]) = Suc i" using Cons.prems(1) by simp
      show "i < Suc i" by simp
      show "x = (pre @ [x]) ! i" using Cons.prems(1) by (simp add: nth_append)
      show "\<forall>j<Suc i. (pre @ [x]) ! j \<le> x"
        using Cons.prems(1,4) True by (auto simp: nth_append less_Suc_eq intro: less_imp_le order_le_less_trans)
      show "\<forall>j<i. (pre @ [x]) ! j < x"
        using Cons.prems(1,4) True by (auto simp: nth_append intro: order_le_less_trans)
    qed
    then show ?thesis using True unfolding app by simp
  next
    case False
    have "argmax_from xs (Suc i) mp mi < length ((pre @ [x]) @ xs)
       \<and> (\<forall>j<length ((pre @ [x]) @ xs). ((pre @ [x]) @ xs) ! j \<le> ((pre @ [x]) @ xs) ! argmax_from xs (Suc i) mp mi)
       \<and> (\<forall>j<argmax_from xs (Suc i) mp mi. ((pre @ [x]) @ xs) ! j < ((pre @ [x]) @ xs) ! argmax_from xs (Suc i) mp mi)"
    proof (rule Cons.IH)
      show "length (pre @ [x]) = Suc i" using Cons.prems(1) by simp
      show "mi < Suc i" using Cons.prems(2) by simp
      show "mp = (pre @ [x]) ! mi" using Cons.prems(1,2,3) by (simp add: nth_append)
      show "\<forall>j<Suc i. (pre @ [x]) ! j \<le> mp"
        using Cons.prems(1,4) False by (auto simp: nth_append less_Suc_eq)
      show "\<forall>j<mi. (pre @ [x]) ! j < mp"
        using Cons.prems(1,2,5) by (auto simp: nth_append)
    qed
    then show ?thesis using False unfolding app by simp
  qed
qed

lemma argmax_spec:
  assumes "xs \<noteq> []"
  shows "\<exists>r. argmax xs = Inr r \<and> r < length xs \<and> xs ! r = Max (set xs)
           \<and> (\<forall>j<r. xs ! j < xs ! r)"
proof -
  obtain x rest where xs: "xs = x # rest" using assms by (cases xs) auto
  define r where "r = argmax_from rest 1 x 0"
  have s: "r < length ([x] @ rest) \<and> (\<forall>j<length ([x] @ rest). ([x] @ rest) ! j \<le> ([x] @ rest) ! r)
       \<and> (\<forall>j<r. ([x] @ rest) ! j < ([x] @ rest) ! r)"
    unfolding r_def by (rule argmax_from_spec) simp_all
  then have r: "r < length xs" "\<forall>j<length xs. xs ! j \<le> xs ! r" "\<forall>j<r. xs ! j < xs ! r"
    by (simp_all add: xs)
  have "Max (set xs) = xs ! r"
  proof (rule Max_eqI)
    show "finite (set xs)" by simp
    show "xs ! r \<in> set xs" using r(1) by simp
    fix y assume "y \<in> set xs"
    then obtain j where "j < length xs" "y = xs ! j" by (auto simp: in_set_conv_nth)
    then show "y \<le> xs ! r" using r(2) by simp
  qed
  moreover have "argmax xs = Inr r" by (simp add: argmax_def xs r_def)
  ultimately show ?thesis using r by auto
qed

lemma amax_spec: "xs \<noteq> [] \<Longrightarrow> amax xs = Inr (Max (set xs))"
proof (cases xs)
  case Nil
  assume "xs \<noteq> []"
  with Nil show ?thesis by simp
next
  case (Cons x rest)
  have "Max (set (x # rest)) = fold max rest x" by (rule Max.set_eq_fold)
  then show ?thesis by (simp only: amax_def Cons list.case)
qed

lemma get_max_anchor_spec:
  assumes wf: "wf_probs probs" and ne: "p_data probs \<noteq> []"
  shows "\<exists>ay ax. get_max_anchor probs = Inr (ay, ax)
           \<and> ay < p_grid_h probs \<and> ax < p_grid_w probs
           \<and> prob_at probs ay ax = Max (set (p_data probs))
           \<and> (\<forall>y x. y < p_grid_h probs \<and> x < p_grid_w probs \<and> (y < ay \<or> (y = ay \<and> x < ax))
                \<longrightarrow> prob_at probs y x < prob_at probs ay ax)"
proof -
  let ?h = "p_grid_h probs" and ?w = "p_grid_w probs" and ?d = "p_data probs"
  obtain r where r: "argmax ?d = Inr r" "r < length ?d" "?d ! r = Max (set ?d)"
      "\<forall>j<r. ?d ! j < ?d ! r"
    using argmax_spec[OF ne] by blast
  have len: "length ?d = ?h * ?w" using wf by (simp add: wf_probs_def)
  have rlt: "r < ?h * ?w" using r(2) len by simp
  then have w: "0 < ?w" by (cases "?w = 0") simp_all
  define ay ax where "ay = r div ?w" and "ax = r mod ?w"
  have flat: "ay * ?w + ax = r" by (simp add: ay_def ax_def)
  have ay: "ay < ?h" unfolding ay_def using rlt by (simp add: less_mult_imp_div_less)
  have ax: "ax < ?w" unfolding ax_def using w by simp
  have g: "get_max_anchor probs = Inr (ay, ax)"
    using r(1) rlt by (simp add: get_max_anchor_def bindE_def unravel_index_def ay_def ax_def)
  have at: "prob_at probs ay ax = ?d ! r" by (simp add: prob_at_def flat)
  have first: "prob_at probs y x < prob_at probs ay ax"
    if "x < ?w" "y < ay \<or> (y = ay \<and> x < ax)" for y x
  proof -
    have "y * ?w + x < r"
    proof (cases "y < ay")
      case True
      then have "Suc y * ?w \<le> ay * ?w" by (intro mult_le_mono1) simp
      moreover have "y * ?w + x < Suc y * ?w" using that(1) by simp
      ultimately show ?thesis using flat by linarith
    next
      case False
      then show ?thesis using that(2) flat by auto
    qed
    then show ?thesis using r(4) unfolding at by (simp add: prob_at_def)
  qed
  show ?thesis using g ay ax at r(3) first by auto
qed


lemma predict_confidence:
  assumes "predict alloc img net_probs net_affines = Inr p"
    and "inference net_probs net_affines = Inr (pa, aa)"
  shows "amax (nd_data pa) = Inr (confidence p)"
  using assms
  by (auto simp: predict_def bindE_def Let_def split: sum.splits prod.splits)

lemma get_bounds_index_error:
  assumes "\<not> (ay < a_grid_h A \<and> ax < a_grid_w A)"
  shows "get_bounds A (int ay) (int ax) = Inl IndexError"
  using assms by (auto simp: get_bounds_def index_axis_def bindE_def)

lemma get_max_anchor_nonempty: "get_max_anchor probs = Inr a \<Longrightarrow> p_data probs \<noteq> []"
  by (auto simp: get_max_anchor_def argmax_def bindE_def)

lemma predict_eq:
  assumes rs: "resize_to_fixed_ratio alloc (height img) (width img) = Inr resized"
    and inf: "inference net_probs net_affines = Inr (pa, aa)"
    and shp: "nd_shape pa = [gh, gw]" "nd_shape aa = [c, gh', gw']"
    and anchor: "get_max_anchor \<lparr>p_grid_h = gh, p_grid_w = gw, p_data = nd_data pa\<rparr> = Inr (ay, ax)"
  shows "predict alloc img net_probs net_affines =
           bindE (get_bounds \<lparr>a_channels = c, a_grid_h = gh', a_grid_w = gw',
                              a_data = nd_data aa\<rparr> (int ay) (int ax)) (\<lambda>(quad, affines').
             Inr \<lparr>image_ref = img,
                  bounds = map (\<lambda>(x, y). (astype_int32 (f64_mul x (of_int (width img))),
                                            astype_int32 (f64_mul y (of_int (height img))))) quad,
                  confidence = Max (set (nd_data pa))\<rparr>)"
proof -
  have ne: "nd_data pa \<noteq> []" using get_max_anchor_nonempty[OF anchor] by simp
  show ?thesis
    using rs inf shp anchor amax_spec[OF ne]
    by (simp add: predict_def bindE_def Let_def unpack_anchor_def bounds_at_def)
qed

lemma inference_no_unit_axis:
  assumes "t_channels tp \<noteq> 0" "t_channels tp \<noteq> 1" "t_h tp \<noteq> 1" "t_w tp \<noteq> 1"
    and "t_channels ta \<noteq> 1" "t_h ta \<noteq> 1" "t_w ta \<noteq> 1"
  shows "inference tp ta =
           Inr (\<lparr>nd_shape = [t_h tp, t_w tp], nd_data = take (t_h tp * t_w tp) (t_data tp)\<rparr>,
                \<lparr>nd_shape = [t_channels ta, t_h ta, t_w ta], nd_data = t_data ta\<rparr>)"
  using assms by (simp add: inference_def squeeze_def first_entry_def bindE_def)

text \<open>
  A network output whose grids are \<open>1 \<times> 1\<close> and \<open>1 \<times> 2\<close> never reaches the decoder in
  that shape: \<^verbatim>\<open>np.squeeze\<close> removes the axes of length 1, \<^verbatim>\<open>probs\<close> is left without an
  axis, and the unpacking of the anchor raises \<^verbatim>\<open>ValueError\<close>.
\<close>

lemma predict_unit_axes_value_error:
  "predict (\<lambda>s. True) \<lparr>height = 128, width = 256\<rparr>
     \<lparr>t_channels = 2, t_h = 1, t_w = 1, t_data = [7 / 8, 1 / 8]\<rparr>
     \<lparr>t_channels = 6, t_h = 1, t_w = 2, t_data = replicate 12 0\<rparr>
   = Inl ValueError"
  by (simp add: predict_def resize_128_256 inference_def squeeze_def first_entry_def
      bindE_def amax_def unpack_anchor_def)

text \<open>
  The pixel coordinates are truncated binary64 products.  With an abscissa of
  \<open>3.5 / 5\<close> and an image of width 90 the exact product is 63, the binary64 quotient is
  below \<open>0.7\<close>, its product with 90 is below 63, and the pixel is 62.
\<close>

lemma float_round_seven_tenths: "float_round (7 / 10) = 3152519739159347 / 2 ^ 52"
  using float_round_nearest[of "- 1" "7 / 10" 6305039478318694]
  by (simp add: power_int_minus)

lemma float_round_below_63:
  "float_round (3152519739159347 / 2 ^ 52 * 90) = 8866461766385663 / 2 ^ 47"
  using float_round_nearest[of 5 "3152519739159347 / 2 ^ 52 * 90" 8866461766385663]
  by (simp add: power_int_minus)

lemma pixel_truncation:
  "astype_int32 (f64_mul (f64_div (7 / 2) 5) 90) = 62 \<and> (7 / 2 / 5 * 90 :: rat) = 63"
proof -
  have e: "(7 / 2 / 5 :: rat) = 7 / 10" by simp
  have a: "f64_div (7 / 2) 5 = 3152519739159347 / 2 ^ 52"
    unfolding f64_div_def e by (rule float_round_seven_tenths)
  have b: "f64_mul (f64_div (7 / 2) 5) 90 = 8866461766385663 / 2 ^ 47"
    unfolding a f64_mul_def by (rule float_round_below_63)
  have "\<lfloor>8866461766385663 / 2 ^ 47 :: rat\<rfloor> = 62"
    by (rule floor_unique) simp_all
  then have "astype_int32 (8866461766385663 / 2 ^ 47) = 62"
    by (simp add: astype_int32_def)
  then show ?thesis unfolding b by simp
qed

text \<open>
  C2.  For a non-empty probability grid the selector returns a cell inside the grid that
  holds the maximum; every cell that precedes it in row-major order (an earlier row, or
  the same row and an earlier column) holds a strictly smaller value, so it is the first
  occurrence of the maximum; a \<open>1 \<times> 1\<close> grid gives \<open>(0, 0)\<close>; and whenever \<open>predict\<close>
  returns a prediction for network outputs from which \<^verbatim>\<open>_inference\<close> extracts this
  grid, its confidence is that maximum.  The grid of the example has its maximum at
  \<open>(0, 1)\<close> and again at \<open>(1, 0)\<close>.
\<close>

theorem max_anchor_correct:
  assumes "wf_probs probs" "p_data probs \<noteq> []"
  shows "\<exists>anchor_y anchor_x.
           get_max_anchor probs = Inr (anchor_y, anchor_x)
         \<and> anchor_y < p_grid_h probs \<and> anchor_x < p_grid_w probs
         \<and> prob_at probs anchor_y anchor_x = Max (set (p_data probs))
         \<and> (\<forall>y x. y < p_grid_h probs \<and> x < p_grid_w probs
                  \<and> (y < anchor_y \<or> (y = anchor_y \<and> x < anchor_x))
                \<longrightarrow> prob_at probs y x < prob_at probs anchor_y anchor_x)
         \<and> (p_grid_h probs = 1 \<and> p_grid_w probs = 1 \<longrightarrow> anchor_y = 0 \<and> anchor_x = 0)
         \<and> (\<forall>alloc img net_probs net_affines affines p.
                inference net_probs net_affines
                  = Inr (\<lparr>nd_shape = [p_grid_h probs, p_grid_w probs], nd_data = p_data probs\<rparr>,
                         affines)
              \<and> predict alloc img net_probs net_affines = Inr p
                \<longrightarrow> confidence p = Max (set (p_data probs)))"
proof -
  obtain ay ax where a: "get_max_anchor probs = Inr (ay, ax)"
      "ay < p_grid_h probs" "ax < p_grid_w probs"
      "prob_at probs ay ax = Max (set (p_data probs))"
      "\<forall>y x. y < p_grid_h probs \<and> x < p_grid_w probs \<and> (y < ay \<or> (y = ay \<and> x < ax))
                \<longrightarrow> prob_at probs y x < prob_at probs ay ax"
    using get_max_anchor_spec[OF assms] by blast
  have one: "p_grid_h probs = 1 \<and> p_grid_w probs = 1 \<longrightarrow> ay = 0 \<and> ax = 0"
    using a(2,3) by auto
  have conf: "confidence p = Max (set (p_data probs))"
    if "inference net_probs net_affines
          = Inr (\<lparr>nd_shape = [p_grid_h probs, p_grid_w probs], nd_data = p_data probs\<rparr>, affines)"
       "predict alloc img net_probs net_affines = Inr p"
    for alloc img net_probs net_affines affines p
    using predict_confidence[OF that(2) that(1)] amax_spec[OF assms(2)] by simp
  show ?thesis using a one conf by blast
qed

theorem max_anchor_correct_witness:
  "get_max_anchor \<lparr>p_grid_h = 2, p_grid_w = 2, p_data = [1 / 8, 7 / 8, 7 / 8, 3 / 8]\<rparr>
     = Inr (0, 1)
   \<and> prob_at \<lparr>p_grid_h = 2, p_grid_w = 2, p_data = [1 / 8, 7 / 8, 7 / 8, 3 / 8]\<rparr> 0 1
     = 7 / 8
   \<and> (\<exists>p. predict (\<lambda>s. True) \<lparr>height = 100, width = 200\<rparr>
             \<lparr>t_channels = 2, t_h = 2, t_w = 2,
              t_data = [1 / 8, 7 / 8, 7 / 8, 3 / 8, 7 / 8, 1 / 8, 1 / 8, 5 / 8]\<rparr>
             \<lparr>t_channels = 6, t_h = 2, t_w = 2, t_data = replicate 24 0\<rparr>
           = Inr p \<and> confidence p = 7 / 8)"
proof -
  let ?P = "\<lparr>p_grid_h = 2, p_grid_w = 2, p_data = [1 / 8, 7 / 8, 7 / 8, 3 / 8 :: real]\<rparr>"
  let ?TP = "\<lparr>t_channels = 2, t_h = 2, t_w = 2,
              t_data = [1 / 8, 7 / 8, 7 / 8, 3 / 8, 7 / 8, 1 / 8, 1 / 8, 5 / 8 :: real]\<rparr>"
  let ?TA = "\<lparr>t_channels = 6, t_h = 2, t_w = 2, t_data = replicate 24 (0::rat)\<rparr>"
  let ?G = "\<lparr>a_channels = 6, a_grid_h = 2, a_grid_w = 2, a_data = replicate 24 (0::rat)\<rparr>"
  let ?I = "\<lparr>height = 100, width = 200\<rparr>"
  have hyp: "wf_probs ?P" "p_data ?P \<noteq> []" by (simp_all add: wf_probs_def)
  obtain ay ax where a: "get_max_anchor ?P = Inr (ay, ax)"
      "prob_at ?P ay ax = Max (set (p_data ?P))"
      "\<forall>alloc img net_probs net_affines affines p.
                inference net_probs net_affines
                  = Inr (\<lparr>nd_shape = [p_grid_h ?P, p_grid_w ?P], nd_data = p_data ?P\<rparr>, affines)
              \<and> predict alloc img net_probs net_affines = Inr p
                \<longrightarrow> confidence p = Max (set (p_data ?P))"
    using max_anchor_correct[OF hyp] by blast
  have g: "get_max_anchor ?P = Inr (0, 1)"
    by (simp add: get_max_anchor_def argmax_def bindE_def unravel_index_def)
  have m: "Max (set (p_data ?P)) = 7 / 8" by simp
  have i: "inference ?TP ?TA =
             Inr (\<lparr>nd_shape = [2, 2], nd_data = [1 / 8, 7 / 8, 7 / 8, 3 / 8]\<rparr>,
                  \<lparr>nd_shape = [6, 2, 2], nd_data = replicate 24 0\<rparr>)"
    by (simp add: inference_def squeeze_def first_entry_def bindE_def)
  obtain resized where r: "resize_to_fixed_ratio (\<lambda>s. True) (height ?I) (width ?I) = Inr resized"
    using resize_returns[of 100 200 "\<lambda>s. True"] by auto
  have b: "get_bounds ?G (int 0) (int 1) = Inr (binary64_quad ?G 0 1,
             set_affine (set_affine ?G 0 0 1 (max (affine_at ?G 0 0 1) 0)) 4 0 1
               (max (affine_at ?G 4 0 1) 0))"
    by (rule get_bounds_eq) (simp_all add: wf_affines_def)
  have "\<exists>p. predict (\<lambda>s. True) ?I ?TP ?TA = Inr p"
    using predict_eq[OF r i, where gh = 2 and gw = 2 and c = 6 and gh' = 2 and gw' = 2
        and ay = 0 and ax = 1] g b
    by (simp add: bindE_def)
  then obtain p where p: "predict (\<lambda>s. True) ?I ?TP ?TA = Inr p" by blast
  have "confidence p = Max (set (p_data ?P))"
    using a(3) i p by auto
  then have "confidence p = 7 / 8" using m by simp
  moreover have "prob_at ?P 0 1 = 7 / 8" using a(1,2) g m by simp
  ultimately show ?thesis using g p by blast
qed

text \<open>
  C6 (as amended).  The pipeline compares no shapes, and the module has no
  \<^verbatim>\<open>ShapeMismatchError\<close>.  When \<^verbatim>\<open>_inference\<close> returns a probability grid and an affine
  grid whose spatial dimensions disagree, the anchor selected in \<^verbatim>\<open>probs\<close> is used to
  index \<^verbatim>\<open>affines\<close>: if it lies outside the affine grid the indexing raises NumPy's
  \<^verbatim>\<open>IndexError\<close>; if it lies inside, no error is raised and the prediction is decoded
  from the affine grid with the affine grid's own dimensions.
\<close>

theorem predict_shape_mismatch:
  assumes "resize_to_fixed_ratio alloc (height img) (width img) = Inr resized"
    and "inference net_probs net_affines = Inr (probs, affines)"
    and "nd_shape probs = [grid_h, grid_w]" "nd_shape affines = [6, grid_h', grid_w']"
    and "length (nd_data affines) = 6 * grid_h' * grid_w'"
    and "(grid_h', grid_w') \<noteq> (grid_h, grid_w)"
    and "get_max_anchor \<lparr>p_grid_h = grid_h, p_grid_w = grid_w, p_data = nd_data probs\<rparr>
           = Inr (anchor_y, anchor_x)"
  shows "if anchor_y < grid_h' \<and> anchor_x < grid_w'
         then predict alloc img net_probs net_affines =
                Inr \<lparr>image_ref = img,
                     bounds = map (\<lambda>(x, y). (astype_int32 (f64_mul x (of_int (width img))),
                                               astype_int32 (f64_mul y (of_int (height img)))))
                                (binary64_quad \<lparr>a_channels = 6, a_grid_h = grid_h',
                                   a_grid_w = grid_w', a_data = nd_data affines\<rparr>
                                   anchor_y anchor_x),
                     confidence = Max (set (nd_data probs))\<rparr>
         else predict alloc img net_probs net_affines = Inl IndexError"
proof -
  let ?A = "\<lparr>a_channels = 6, a_grid_h = grid_h', a_grid_w = grid_w', a_data = nd_data affines\<rparr>"
  note pe = predict_eq[OF assms(1,2,3,4,7)]
  show ?thesis
  proof (cases "anchor_y < grid_h' \<and> anchor_x < grid_w'")
    case True
    have "get_bounds ?A (int anchor_y) (int anchor_x) =
        Inr (binary64_quad ?A anchor_y anchor_x,
             set_affine (set_affine ?A 0 anchor_y anchor_x
                 (max (affine_at ?A 0 anchor_y anchor_x) 0)) 4 anchor_y anchor_x
               (max (affine_at ?A 4 anchor_y anchor_x) 0))"
      using True assms(5) by (intro get_bounds_eq) (simp_all add: wf_affines_def)
    then show ?thesis using True by (simp add: pe bindE_def)
  next
    case False
    have "get_bounds ?A (int anchor_y) (int anchor_x) = Inl IndexError"
      using False by (intro get_bounds_index_error) simp
    then show ?thesis using False by (simp add: pe bindE_def)
  qed
qed

theorem predict_shape_mismatch_witness:
  "predict (\<lambda>s. True) \<lparr>height = 128, width = 256\<rparr>
     \<lparr>t_channels = 2, t_h = 2, t_w = 3,
      t_data = [1 / 8, 3 / 8, 7 / 8, 1 / 4, 1 / 8, 1 / 8,
                7 / 8, 5 / 8, 1 / 8, 3 / 4, 7 / 8, 7 / 8]\<rparr>
     \<lparr>t_channels = 6, t_h = 2, t_w = 2, t_data = replicate 24 0\<rparr>
   = Inl IndexError"
proof -
  let ?TP = "\<lparr>t_channels = 2, t_h = 2, t_w = 3,
      t_data = [1 / 8, 3 / 8, 7 / 8, 1 / 4, 1 / 8, 1 / 8,
                7 / 8, 5 / 8, 1 / 8, 3 / 4, 7 / 8, 7 / 8 :: real]\<rparr>"
  let ?TA = "\<lparr>t_channels = 6, t_h = 2, t_w = 2, t_data = replicate 24 (0::rat)\<rparr>"
  let ?pa = "\<lparr>nd_shape = [2, 3], nd_data = [1 / 8, 3 / 8, 7 / 8, 1 / 4, 1 / 8, 1 / 8 :: real]\<rparr>"
  let ?aa = "\<lparr>nd_shape = [6, 2, 2], nd_data = replicate 24 (0::rat)\<rparr>"
  have r: "resize_to_fixed_ratio (\<lambda>s. True) (height \<lparr>height = 128, width = 256\<rparr>)
             (width \<lparr>height = 128, width = 256\<rparr>) = Inr (1152, 576)"
    by (simp add: resize_128_256)
  have i: "inference ?TP ?TA = Inr (?pa, ?aa)"
    by (simp add: inference_def squeeze_def first_entry_def bindE_def)
  have g: "get_max_anchor \<lparr>p_grid_h = 2, p_grid_w = 3, p_data = nd_data ?pa\<rparr> = Inr (0, 2)"
    by (simp add: get_max_anchor_def argmax_def bindE_def unravel_index_def)
  show ?thesis
    using predict_shape_mismatch[OF r i, where grid_h = 2 and grid_w = 3 and grid_h' = 2
        and grid_w' = 2 and anchor_y = 0 and anchor_x = 2] g
    by simp
qed

text \<open>
  A network output of shape \<open>(1, 2, 2, 2)\<close> for the probabilities and of shape
  \<open>(1, 6, 2, 3)\<close> for the affine parameters: \<^verbatim>\<open>_inference\<close> returns a \<open>2 \<times> 2\<close> probability
  grid and a \<open>2 \<times> 3\<close> affine grid, the anchor \<open>(0, 1)\<close> exists in both, and \<open>predict\<close>
  returns a prediction.
\<close>

theorem predict_mismatched_grids_no_error:
  "predict (\<lambda>s. True) \<lparr>height = 128, width = 256\<rparr>
     \<lparr>t_channels = 2, t_h = 2, t_w = 2,
      t_data = [1 / 8, 7 / 8, 7 / 8, 3 / 8, 7 / 8, 1 / 8, 1 / 8, 5 / 8]\<rparr>
     \<lparr>t_channels = 6, t_h = 2, t_w = 3, t_data = replicate 36 0\<rparr>
   = Inr \<lparr>image_ref = \<lparr>height = 128, width = 256\<rparr>,
          bounds = [(128, 32), (128, 32), (128, 32), (128, 32)],
          confidence = 7 / 8\<rparr>"
proof -
  let ?I = "\<lparr>height = 128, width = 256\<rparr>"
  let ?TP = "\<lparr>t_channels = 2, t_h = 2, t_w = 2,
      t_data = [1 / 8, 7 / 8, 7 / 8, 3 / 8, 7 / 8, 1 / 8, 1 / 8, 5 / 8 :: real]\<rparr>"
  let ?TA = "\<lparr>t_channels = 6, t_h = 2, t_w = 3, t_data = replicate 36 (0::rat)\<rparr>"
  let ?pa = "\<lparr>nd_shape = [2, 2], nd_data = [1 / 8, 7 / 8, 7 / 8, 3 / 8 :: real]\<rparr>"
  let ?aa = "\<lparr>nd_shape = [6, 2, 3], nd_data = replicate 36 (0::rat)\<rparr>"
  let ?G = "\<lparr>a_channels = 6, a_grid_h = 2, a_grid_w = 3, a_data = replicate 36 (0::rat)\<rparr>"
  have r: "resize_to_fixed_ratio (\<lambda>s. True) (height ?I) (width ?I) = Inr (1152, 576)"
    by (simp add: resize_128_256)
  have i: "inference ?TP ?TA = Inr (?pa, ?aa)"
    by (simp add: inference_def squeeze_def first_entry_def bindE_def)
  have g: "get_max_anchor \<lparr>p_grid_h = 2, p_grid_w = 2, p_data = nd_data ?pa\<rparr> = Inr (0, 1)"
    by (simp add: get_max_anchor_def argmax_def bindE_def unravel_index_def)
  have b: "get_bounds ?G (int 0) (int 1) = Inr (binary64_quad ?G 0 1,
             set_affine (set_affine ?G 0 0 1 (max (affine_at ?G 0 0 1) 0)) 4 0 1
               (max (affine_at ?G 4 0 1) 0))"
    by (rule get_bounds_eq) (simp_all add: wf_affines_def)
  have q: "binary64_quad ?G 0 (Suc 0)
             = [(1 / 2, 1 / 4), (1 / 2, 1 / 4), (1 / 2, 1 / 4), (1 / 2, 1 / 4)]"
    by (simp add: binary64_quad_def binary64_corner_def affine_at_def flat3_def f64_defs
        float_round_zero float_round_one float_round_exact)
  have px: "astype_int32 (f64_mul (1 / 2) 256) = 128" "astype_int32 (f64_mul (1 / 4) 128) = 32"
    by (simp_all add: astype_int32_def f64_defs float_round_numeral)
  show ?thesis
    using predict_eq[OF r i, where gh = 2 and gw = 2 and c = 6 and gh' = 2 and gw' = 3
        and ay = 0 and ax = 1] g b
    by (simp add: bindE_def q px)
qed

end
